theory Spec2Isabelle
  imports Complex_Main
begin

section \<open>JavaScript numbers\<close>

text \<open>
  Audio samples, levels and energies are JavaScript numbers. Finite values are modelled
  as reals (rounding is not modelled); the three values that a division with divisor zero
  produces are kept apart, so that such a division is visible in the model.
\<close>

datatype jsnum = Num real | PosInfinity | NegInfinity | NaN

definition js_div :: "real \<Rightarrow> real \<Rightarrow> jsnum" where
  "js_div a b =
     (if b = 0 then (if a = 0 then NaN else if a > 0 then PosInfinity else NegInfinity)
      else Num (a / b))"

text \<open>
  \<open>Math.min\<close> and \<open>Math.max\<close> of a finite number and a JavaScript number, and the
  comparison \<open>i >= x\<close> of a non-negative integer with a JavaScript number (false for
  \<open>NaN\<close>).
\<close>

fun js_min :: "real \<Rightarrow> jsnum \<Rightarrow> jsnum" where
  "js_min a (Num b) = Num (min a b)"
| "js_min a PosInfinity = Num a"
| "js_min a NegInfinity = NegInfinity"
| "js_min a NaN = NaN"

fun js_max :: "real \<Rightarrow> jsnum \<Rightarrow> jsnum" where
  "js_max a (Num b) = Num (max a b)"
| "js_max a PosInfinity = PosInfinity"
| "js_max a NegInfinity = Num a"
| "js_max a NaN = NaN"

fun js_index_ge :: "nat \<Rightarrow> jsnum \<Rightarrow> bool" where
  "js_index_ge i (Num b) = (real i \<ge> b)"
| "js_index_ge i PosInfinity = False"
| "js_index_ge i NegInfinity = True"
| "js_index_ge i NaN = False"

datatype js_error = TypeError | RangeError

text \<open>
  \<open>new Float32Array(length)\<close> for a number: the length is truncated to an integer
  (\<open>NaN\<close> to 0), and a negative or infinite one is a \<open>RangeError\<close>. \<open>size_slots\<close> is the
  number of slots allocated (0 where there is nothing to allocate).
\<close>

fun size_slots :: "jsnum \<Rightarrow> nat" where
  "size_slots (Num r) = nat \<lfloor>r\<rfloor>"
| "size_slots PosInfinity = 0"
| "size_slots NegInfinity = 0"
| "size_slots NaN = 0"

fun new_Float32Array :: "jsnum \<Rightarrow> js_error + real list" where
  "new_Float32Array (Num r) =
     (if r \<le> - 1 \<or> r \<ge> 2 ^ 53 then Inl RangeError
      else Inr (replicate (size_slots (Num r)) 0))"
| "new_Float32Array PosInfinity = Inl RangeError"
| "new_Float32Array NegInfinity = Inl RangeError"
| "new_Float32Array NaN = Inr (replicate (size_slots NaN) 0)"

section \<open>The audio worklet processor (extension/audio-processor.js)\<close>

record AudioProcessor =
  bufferSize :: jsnum
  buffer :: "real list"
  bufferIndex :: nat
  sampleRate :: real
  analyser_fftSize :: nat
  analyser_frequencyData :: "real list"
  isProcessing :: bool
  frameCount :: nat

text \<open>The state the constructor leaves behind.\<close>

definition constructor :: AudioProcessor where
  "constructor =
     \<lparr> bufferSize = Num 2048,
       buffer = replicate 2048 0,
       bufferIndex = 0,
       sampleRate = 44100,
       analyser_fftSize = 256,
       analyser_frequencyData = replicate 128 0,
       isProcessing = True,
       frameCount = 0 \<rparr>"

text \<open>
  Messages from the main thread. The size of a \<open>set_buffer_size\<close> message is whatever
  the main thread posted: \<open>Math.min\<close> converts it to a number (a fraction stays one, a
  missing size, being \<open>undefined\<close>, gives \<open>NaN\<close>, as does a string that is no numeral) or,
  for a BigInt, throws. A message whose type is none of the three cases of the switch is
  \<open>Other\<close>.
\<close>

datatype size_value = SizeNumber jsnum | SizeBigInt

datatype message = Start | Stop | SetBufferSize size_value | Other

text \<open>
  \<open>updateBufferSize\<close>, with the exception it may throw and the state it leaves: the size
  is stored before the buffer is allocated.
\<close>

definition updateBufferSize ::
  "AudioProcessor \<Rightarrow> size_value \<Rightarrow> js_error option \<times> AudioProcessor" where
  "updateBufferSize s newSize =
     (case newSize of
        SizeBigInt \<Rightarrow> (Some TypeError, s)
      | SizeNumber n \<Rightarrow>
          (let s1 = s\<lparr> bufferSize := js_max 1024 (js_min 8192 n) \<rparr>
           in case new_Float32Array (bufferSize s1) of
                Inl e \<Rightarrow> (Some e, s1)
              | Inr b \<Rightarrow> (None, s1\<lparr> buffer := b, bufferIndex := 0 \<rparr>)))"

text \<open>\<open>handleMessage\<close>; what is left of a handler that threw is the state.\<close>

fun handleMessage :: "AudioProcessor \<Rightarrow> message \<Rightarrow> AudioProcessor" where
  "handleMessage s Start = s\<lparr> isProcessing := True \<rparr>"
| "handleMessage s Stop = s\<lparr> isProcessing := False \<rparr>"
| "handleMessage s (SetBufferSize v) = snd (updateBufferSize s v)"
| "handleMessage s Other = s"

subsection \<open>Level, noise gate and compressor\<close>

text \<open>The summation loop of \<open>calculateAudioLevel\<close>, with the running sum as accumulator.\<close>

fun sum_abs :: "real list \<Rightarrow> real \<Rightarrow> real" where
  "sum_abs [] acc = acc"
| "sum_abs (x # xs) acc = sum_abs xs (acc + \<bar>x\<bar>)"

definition calculateAudioLevel :: "real list \<Rightarrow> jsnum" where
  "calculateAudioLevel buf = js_div (sum_abs buf 0) (real (length buf))"

definition compress :: "real \<Rightarrow> real \<Rightarrow> real \<Rightarrow> real" where
  "compress sample threshold ratio =
     (let absSample = \<bar>sample\<bar> in
      if absSample > threshold then
        (let excess = absSample - threshold;
             compressedExcess = excess * ratio;
             compressedSample = threshold + compressedExcess
         in if sample \<ge> 0 then compressedSample else - compressedSample)
      else sample)"

text \<open>The body of the loop of \<open>preprocessAudio\<close> for one sample.\<close>

definition preprocess_sample :: "real \<Rightarrow> real" where
  "preprocess_sample sample0 =
     (let sample = (if \<bar>sample0\<bar> < 0.001 then 0 else sample0)
      in compress sample 0.7 0.5)"

text \<open>The loop of \<open>preprocessAudio\<close>: index \<open>i\<close> runs over the input, writing the output.\<close>

function preprocess_loop :: "real list \<Rightarrow> nat \<Rightarrow> real list \<Rightarrow> real list" where
  "preprocess_loop inputBuffer i outputBuffer =
     (if i < length inputBuffer
      then preprocess_loop inputBuffer (i + 1)
             (outputBuffer[i := preprocess_sample (inputBuffer ! i)])
      else outputBuffer)"
  by pat_completeness auto
termination
  by (relation "measure (\<lambda>(inputBuffer, i, outputBuffer). length inputBuffer - i)") auto

declare preprocess_loop.simps [simp del]

definition preprocessAudio :: "real list \<Rightarrow> real list" where
  "preprocessAudio inputBuffer =
     preprocess_loop inputBuffer 0 (replicate (length inputBuffer) 0)"

subsection \<open>Frames and posted chunks\<close>

text \<open>The object \<open>processBuffer\<close> posts to the main thread.\<close>

record AudioChunkMessage =
  chunk_type :: string
  chunk_audioBuffer :: "real list"
  chunk_sampleRate :: real
  chunk_level :: jsnum
  chunk_timestamp :: real

definition processBuffer :: "real \<Rightarrow> AudioProcessor \<Rightarrow> AudioChunkMessage" where
  "processBuffer currentTime s =
     (let audioLevel = calculateAudioLevel (buffer s);
          processedBuffer = preprocessAudio (buffer s)
      in \<lparr> chunk_type = ''audio_chunk'',
           chunk_audioBuffer = processedBuffer,
           chunk_sampleRate = sampleRate s,
           chunk_level = audioLevel,
           chunk_timestamp = currentTime * 1000 \<rparr>)"

text \<open>
  The buffering part of the body of the loop of \<open>process\<close> for one input sample: the state
  and the chunks posted so far go in and come out. A write past the end of a typed array
  is ignored, as \<open>list_update\<close> does.
\<close>

definition buffer_sample ::
  "real \<Rightarrow> AudioProcessor \<times> AudioChunkMessage list \<Rightarrow> real
   \<Rightarrow> AudioProcessor \<times> AudioChunkMessage list" where
  "buffer_sample currentTime sp x =
     (case sp of (s, posted) \<Rightarrow>
        if isProcessing s then
          (let s1 = s\<lparr> buffer := (buffer s)[bufferIndex s := x],
                         bufferIndex := bufferIndex s + 1 \<rparr>
           in if js_index_ge (bufferIndex s1) (bufferSize s1)
              then (s1\<lparr> bufferIndex := 0 \<rparr>, posted @ [processBuffer currentTime s1])
              else (s1, posted))
        else (s, posted))"

text \<open>
  The loop of \<open>process\<close> over the rest of the input channel from index \<open>i\<close> on; it carries
  the state, the output channel and the chunks posted.
\<close>

fun process_loop ::
  "real \<Rightarrow> real list \<Rightarrow> nat \<Rightarrow> AudioProcessor \<times> real list \<times> AudioChunkMessage list
   \<Rightarrow> AudioProcessor \<times> real list \<times> AudioChunkMessage list" where
  "process_loop currentTime [] i r = r"
| "process_loop currentTime (x # xs) i (s, outputChannel, posted) =
     (case buffer_sample currentTime (s, posted) x of (s', posted') \<Rightarrow>
        process_loop currentTime xs (i + 1) (s', outputChannel[i := x], posted'))"

text \<open>The update of the sample rate from the worklet scope at the head of \<open>process\<close>.\<close>

definition with_sampleRate :: "AudioProcessor \<Rightarrow> real \<Rightarrow> AudioProcessor" where
  "with_sampleRate s ctxSampleRate =
     (if sampleRate s \<noteq> ctxSampleRate then s\<lparr> sampleRate := ctxSampleRate \<rparr> else s)"

text \<open>
  \<open>process\<close>, with the globals \<open>sampleRate\<close> and \<open>currentTime\<close> of the worklet scope as
  arguments. The result is the outcome (the returned value, or the exception thrown on
  reading a channel of a missing output), the new state, the outputs and the chunks posted.
\<close>

definition process ::
  "real \<Rightarrow> real \<Rightarrow> AudioProcessor \<Rightarrow> real list list list \<Rightarrow> real list list list
   \<Rightarrow> (js_error + bool) \<times> AudioProcessor \<times> real list list list \<times> AudioChunkMessage list" where
  "process ctxSampleRate currentTime s inputs outputs =
     (case inputs of
        [] \<Rightarrow> (Inr True, s, outputs, [])
      | input # _ \<Rightarrow>
          (case input of
             [] \<Rightarrow> (Inr True, s, outputs, [])
           | inputChannel # _ \<Rightarrow>
               (case outputs of
                  [] \<Rightarrow> (Inl TypeError, s, outputs, [])
                | output # outputs_rest \<Rightarrow>
                    (let s1 = with_sampleRate s ctxSampleRate
                     in case output of
                          [] \<Rightarrow>
                            if inputChannel = []
                            then (Inr True, s1\<lparr> frameCount := frameCount s1 + 1 \<rparr>, outputs, [])
                            else (Inl TypeError, s1, outputs, [])
                        | outputChannel # channels_rest \<Rightarrow>
                            (case process_loop currentTime inputChannel 0 (s1, outputChannel, [])
                             of (s2, outputChannel', posted) \<Rightarrow>
                               (Inr True, s2\<lparr> frameCount := frameCount s2 + 1 \<rparr>,
                                (outputChannel' # channels_rest) # outputs_rest, posted))))))"

subsection \<open>Runs of the worklet\<close>

text \<open>
  The worklet is driven by messages and by frames; a frame carries the worklet scope's
  sample rate and current time and the inputs and outputs handed to \<open>process\<close>.
\<close>

datatype event =
  Message message
| Frame real real "real list list list" "real list list list"

fun step :: "AudioProcessor \<Rightarrow> event \<Rightarrow> AudioProcessor \<times> AudioChunkMessage list" where
  "step s (Message m) = (handleMessage s m, [])"
| "step s (Frame ctxSampleRate currentTime inputs outputs) =
     (case process ctxSampleRate currentTime s inputs outputs of
        (outcome, s', outputs', posted) \<Rightarrow> (s', posted))"

fun run :: "AudioProcessor \<Rightarrow> event list \<Rightarrow> AudioProcessor \<times> AudioChunkMessage list" where
  "run s [] = (s, [])"
| "run s (e # es) =
     (case step s e of (s1, posted1) \<Rightarrow>
        case run s1 es of (s2, posted2) \<Rightarrow> (s2, posted1 @ posted2))"

inductive reachable :: "AudioProcessor \<Rightarrow> bool" where
  reachable_init: "reachable constructor"
| reachable_step: "reachable s \<Longrightarrow> reachable (fst (step s e))"

text \<open>
  The buffer invariant of a processor whose buffer size is an integer: the size is the
  number of slots of the buffer, it is in range, and the write index is inside the buffer.
\<close>

definition buffer_inv :: "AudioProcessor \<Rightarrow> bool" where
  "buffer_inv s \<longleftrightarrow>
     bufferSize s = Num (real (length (buffer s)))
     \<and> 1024 \<le> length (buffer s) \<and> length (buffer s) \<le> 8192
     \<and> bufferIndex s < length (buffer s)"

text \<open>
  A size in range, and the comparison \<open>i < x\<close> of a non-negative integer with a
  JavaScript number.
\<close>

fun size_in_range :: "jsnum \<Rightarrow> bool" where
  "size_in_range (Num r) = (1024 \<le> r \<and> r \<le> 8192)"
| "size_in_range PosInfinity = False"
| "size_in_range NegInfinity = False"
| "size_in_range NaN = False"

fun js_index_less :: "nat \<Rightarrow> jsnum \<Rightarrow> bool" where
  "js_index_less i (Num b) = (real i < b)"
| "js_index_less i PosInfinity = True"
| "js_index_less i NegInfinity = False"
| "js_index_less i NaN = False"

text \<open>
  What holds of the size whatever was posted: it is \<open>NaN\<close> or a number in range, and the
  buffer has as many slots as the allocation gives for it.
\<close>

definition size_inv :: "AudioProcessor \<Rightarrow> bool" where
  "size_inv s \<longleftrightarrow>
     length (buffer s) = size_slots (bufferSize s)
     \<and> (bufferSize s = NaN \<or> size_in_range (bufferSize s))"

text \<open>
  What holds when no size posted was \<open>NaN\<close>: the size is a number in range and the write
  index is below it.
\<close>

definition index_inv :: "AudioProcessor \<Rightarrow> bool" where
  "index_inv s \<longleftrightarrow>
     length (buffer s) = size_slots (bufferSize s)
     \<and> size_in_range (bufferSize s)
     \<and> js_index_less (bufferIndex s) (bufferSize s)"

text \<open>The events other than a \<open>set_buffer_size\<close> message whose size is \<open>NaN\<close>.\<close>

fun numeric_size :: "event \<Rightarrow> bool" where
  "numeric_size (Message (SetBufferSize (SizeNumber NaN))) = False"
| "numeric_size e = True"

text \<open>
  A posted chunk holds \<open>n\<close> samples when that is the length of its audio, \<open>n\<close> is between
  1024 and 8192, and its level is a finite number.
\<close>

definition chunk_holds :: "nat \<Rightarrow> AudioChunkMessage \<Rightarrow> bool" where
  "chunk_holds n m \<longleftrightarrow>
     length (chunk_audioBuffer m) = n \<and> 1024 \<le> n \<and> n \<le> 8192
     \<and> chunk_level m \<noteq> NaN \<and> chunk_level m \<noteq> PosInfinity \<and> chunk_level m \<noteq> NegInfinity"

subsection \<open>Spectral voice detection\<close>

text \<open>
  Arithmetic and comparison on JavaScript numbers as \<open>detectVoice\<close> needs them: the product
  of a finite number with a JavaScript number, and the comparisons of a JavaScript number
  with a finite one (every comparison with \<open>NaN\<close> is false).
\<close>

fun js_times :: "real \<Rightarrow> jsnum \<Rightarrow> jsnum" where
  "js_times a (Num b) = Num (a * b)"
| "js_times a PosInfinity = (if a = 0 then NaN else if a > 0 then PosInfinity else NegInfinity)"
| "js_times a NegInfinity = (if a = 0 then NaN else if a > 0 then NegInfinity else PosInfinity)"
| "js_times a NaN = NaN"

fun js_less :: "jsnum \<Rightarrow> real \<Rightarrow> bool" where
  "js_less (Num a) b = (a < b)"
| "js_less PosInfinity b = False"
| "js_less NegInfinity b = True"
| "js_less NaN b = False"

fun js_greater :: "jsnum \<Rightarrow> real \<Rightarrow> bool" where
  "js_greater (Num a) b = (a > b)"
| "js_greater PosInfinity b = True"
| "js_greater NegInfinity b = False"
| "js_greater NaN b = False"

text \<open>The first division of \<open>detectVoice\<close>: the width of a frequency bin.\<close>

definition binSize_of :: "AudioProcessor \<Rightarrow> real list \<Rightarrow> jsnum" where
  "binSize_of s fftData = js_div (sampleRate s) (real (length fftData * 2))"

text \<open>
  The loop of \<open>detectVoice\<close> over the rest of the bins from index \<open>i\<close> on, carrying the
  low, mid and high frequency energies.
\<close>

fun band_loop :: "jsnum \<Rightarrow> real list \<Rightarrow> nat \<Rightarrow> real \<times> real \<times> real \<Rightarrow> real \<times> real \<times> real" where
  "band_loop binSize [] i e = e"
| "band_loop binSize (x # xs) i (lowFreqEnergy, midFreqEnergy, highFreqEnergy) =
     (let freq = js_times (real i) binSize
      in band_loop binSize xs (i + 1)
           (if js_less freq 300 then (lowFreqEnergy + x, midFreqEnergy, highFreqEnergy)
            else if js_less freq 3000 then (lowFreqEnergy, midFreqEnergy + x, highFreqEnergy)
            else (lowFreqEnergy, midFreqEnergy, highFreqEnergy + x)))"

definition band_energies :: "AudioProcessor \<Rightarrow> real list \<Rightarrow> real \<times> real \<times> real" where
  "band_energies s fftData = band_loop (binSize_of s fftData) fftData 0 (0, 0, 0)"

definition totalEnergy :: "AudioProcessor \<Rightarrow> real list \<Rightarrow> real" where
  "totalEnergy s fftData =
     (case band_energies s fftData of
        (lowFreqEnergy, midFreqEnergy, highFreqEnergy) \<Rightarrow>
          lowFreqEnergy + midFreqEnergy + highFreqEnergy)"

text \<open>The second division of \<open>detectVoice\<close>, made only after the test for a zero total.\<close>

definition midFreqRatio :: "AudioProcessor \<Rightarrow> real list \<Rightarrow> jsnum" where
  "midFreqRatio s fftData =
     (case band_energies s fftData of
        (lowFreqEnergy, midFreqEnergy, highFreqEnergy) \<Rightarrow>
          js_div midFreqEnergy (totalEnergy s fftData))"

definition detectVoice :: "AudioProcessor \<Rightarrow> real list \<Rightarrow> bool" where
  "detectVoice s fftData =
     (if totalEnergy s fftData = 0 then False
      else js_greater (midFreqRatio s fftData) 0.3 \<and> totalEnergy s fftData > 0.01)"

section \<open>The content script (class RTDContentScript, README.md)\<close>

text \<open>
  What the content script hands to \<open>JSON.stringify\<close> and sends on the WebSocket.
\<close>

datatype json = JNum real | JStr string | JArr "json list" | JObj "(string \<times> json) list"

datatype readyState = CONNECTING | OPEN | CLOSING | CLOSED

text \<open>
  Of the fields of the content script, the two that guard the sending of audio: the
  activity flag and the WebSocket (\<open>None\<close> is \<open>null\<close>) with its ready state.
\<close>

record RTDContentScript =
  isActive :: bool
  websocket :: "readyState option"

definition cs_constructor :: RTDContentScript where
  "cs_constructor = \<lparr> isActive = False, websocket = None \<rparr>"

text \<open>\<open>handleAudioData\<close>, with \<open>Date.now()\<close> as argument; the result is what is sent.\<close>

definition handleAudioData :: "RTDContentScript \<Rightarrow> real \<Rightarrow> AudioChunkMessage \<Rightarrow> json list" where
  "handleAudioData cs now audioData =
     (if \<not> isActive cs \<or> websocket cs = None \<or> websocket cs \<noteq> Some OPEN then []
      else [JObj [(''type'', JStr ''audio_chunk''),
                  (''data'', JArr (map JNum (chunk_audioBuffer audioData))),
                  (''sampleRate'', JNum (chunk_sampleRate audioData)),
                  (''timestamp'', JNum now)]])"

definition stopDubbing :: "RTDContentScript \<Rightarrow> RTDContentScript" where
  "stopDubbing cs =
     (let cs1 = cs\<lparr> isActive := False \<rparr>
      in if websocket cs1 \<noteq> None then cs1\<lparr> websocket := None \<rparr> else cs1)"

text \<open>
  \<open>startDubbing\<close> runs to its end or throws on the way: with no video element, in the set-up
  of the audio capture, or in \<open>connectToServer\<close> (the socket exists then, in the ready state
  given). When the socket opens, the configuration is sent and the script becomes active.
\<close>

datatype start_outcome = NoVideo | CaptureFailed | ConnectFailed readyState | Connected json json

fun startDubbing :: "RTDContentScript \<Rightarrow> start_outcome \<Rightarrow> RTDContentScript \<times> json list" where
  "startDubbing cs NoVideo = (cs, [])"
| "startDubbing cs CaptureFailed = (cs, [])"
| "startDubbing cs (ConnectFailed r) = (cs\<lparr> websocket := Some r \<rparr>, [])"
| "startDubbing cs (Connected settings platform) =
     (cs\<lparr> websocket := Some OPEN, isActive := True \<rparr>,
      [JObj [(''type'', JStr ''config''), (''settings'', settings), (''platform'', platform)]])"

definition updateSettings :: "RTDContentScript \<Rightarrow> json \<Rightarrow> json list" where
  "updateSettings cs settings =
     (if websocket cs \<noteq> None \<and> websocket cs = Some OPEN
      then [JObj [(''type'', JStr ''settings_update''), (''settings'', settings)]]
      else [])"

text \<open>
  The events of the content script: the three actions of its message handler that touch
  the socket, a chunk arriving from the worklet (with the time of arrival), and a change of
  the ready state of the socket it holds.
\<close>

datatype cs_event =
  StartDubbing start_outcome
| StopDubbing
| UpdateSettings json
| AudioData real AudioChunkMessage
| SocketState readyState

fun cs_step :: "RTDContentScript \<Rightarrow> cs_event \<Rightarrow> RTDContentScript \<times> json list" where
  "cs_step cs (StartDubbing outcome) = startDubbing cs outcome"
| "cs_step cs StopDubbing = (stopDubbing cs, [])"
| "cs_step cs (UpdateSettings settings) = (cs, updateSettings cs settings)"
| "cs_step cs (AudioData now audioData) = (cs, handleAudioData cs now audioData)"
| "cs_step cs (SocketState r) =
     (if websocket cs \<noteq> None then cs\<lparr> websocket := Some r \<rparr> else cs, [])"

fun cs_run :: "RTDContentScript \<Rightarrow> cs_event list \<Rightarrow> RTDContentScript \<times> json list" where
  "cs_run cs [] = (cs, [])"
| "cs_run cs (e # es) =
     (case cs_step cs e of (cs1, sent1) \<Rightarrow>
        case cs_run cs1 es of (cs2, sent2) \<Rightarrow> (cs2, sent1 @ sent2))"

fun is_start :: "cs_event \<Rightarrow> bool" where
  "is_start (StartDubbing outcome) = True"
| "is_start e = False"

section \<open>The voice clone form (static/js/voice_management.js)\<close>

text \<open>
  A JavaScript string is a list of UTF-16 code units. \<open>String.prototype.trim\<close> strips the
  white space and line terminator code units from both ends.
\<close>

type_synonym jsstring = "nat list"

definition isWhiteSpace :: "nat \<Rightarrow> bool" where
  "isWhiteSpace c \<longleftrightarrow>
     c \<in> set [9, 10, 11, 12, 13, 32, 160, 5760, 8232, 8233, 8239, 8287, 12288, 65279]
     \<or> (8192 \<le> c \<and> c \<le> 8202)"

definition trim :: "jsstring \<Rightarrow> jsstring" where
  "trim s = rev (dropWhile isWhiteSpace (rev (dropWhile isWhiteSpace s)))"

text \<open>The values of the form's inputs when it is submitted; \<open>'f\<close> is the type of a file.\<close>

record 'f CreateVoiceForm =
  nameInput :: jsstring
  descriptionInput :: jsstring
  speakerSelect :: jsstring
  actorSelect :: jsstring
  samplesInput :: "'f list"

datatype 'f form_value = Text jsstring | File 'f

text \<open>The loop appending the audio files, from index \<open>i\<close> on.\<close>

fun append_files :: "'f list \<Rightarrow> (string \<times> 'f form_value) list \<Rightarrow> (string \<times> 'f form_value) list" where
  "append_files [] formData = formData"
| "append_files (f # fs) formData = append_files fs (formData @ [(''audio_files'', File f)])"

text \<open>
  \<open>submitCreateVoiceForm\<close> up to the request: \<open>Inl\<close> is the alert shown on a failed
  validation (no request is made), \<open>Inr\<close> the form data posted to
  \<open>/api/voice-management/voice-clones\<close>. The elements of the page are taken to exist.
\<close>

definition submitCreateVoiceForm ::
  "'f CreateVoiceForm \<Rightarrow> string + (string \<times> 'f form_value) list" where
  "submitCreateVoiceForm form =
     (if trim (nameInput form) = [] then Inl ''Please enter a voice name.''
      else if speakerSelect form = [] then Inl ''Please select a speaker.''
      else if length (samplesInput form) = 0 then Inl ''Please select at least one audio sample.''
      else
        (let formData = [(''name'', Text (trim (nameInput form))),
                         (''speaker_id'', Text (speakerSelect form))];
             formData = (if trim (descriptionInput form) \<noteq> []
                         then formData @ [(''description'', Text (trim (descriptionInput form)))]
                         else formData);
             formData = (if actorSelect form \<noteq> []
                         then formData @ [(''actor_id'', Text (actorSelect form))]
                         else formData)
         in Inr (append_files (samplesInput form) formData)))"

section \<open>The Speaker Identifier\<close>

text \<open>
  Modelled from the spec: the Speaker Identifier (the README lists it as
  \<open>speaker_identification.py\<close>; the file is not among the sources, only the configured
  threshold \<open>VOICE_SIMILARITY_THRESHOLD = 0.8\<close> is). A SpeakerProfile with its speaker id,
  its stored embedding and its last-seen time.
\<close>

record SpeakerProfile =
  speaker_id :: nat
  embedding :: "real list"
  last_seen :: nat

text \<open>
  Modelled from the spec: the configuration of the identifier, namely the similarity
  threshold, the "small epsilon" of the tie-break and the weight of the exponential
  smoothing.
\<close>

record IdentifierConfig =
  similarity_threshold :: real
  tie_epsilon :: real
  smoothing_weight :: real


text \<open>Modelled from the spec: the inner product of two embeddings.\<close>

definition dot :: "real list \<Rightarrow> real list \<Rightarrow> real" where
  "dot a b = sum_list (map2 (*) a b)"

text \<open>
  Modelled from the spec: the cosine similarity of two embeddings; for an embedding of
  norm zero, of which the spec says nothing, it is taken to be 0.
\<close>

definition cosine_similarity :: "real list \<Rightarrow> real list \<Rightarrow> real" where
  "cosine_similarity a b =
     (if sqrt (dot a a) * sqrt (dot b b) = 0 then 0
      else dot a b / (sqrt (dot a a) * sqrt (dot b b)))"

text \<open>Modelled from the spec: each known profile with its similarity to the new embedding.\<close>

definition scores :: "real list \<Rightarrow> SpeakerProfile list \<Rightarrow> (SpeakerProfile \<times> real) list" where
  "scores e profiles = map (\<lambda>p. (p, cosine_similarity e (embedding p))) profiles"

text \<open>Modelled from the spec: the first profile of the best score.\<close>

fun arg_best ::
  "SpeakerProfile \<times> real \<Rightarrow> (SpeakerProfile \<times> real) list \<Rightarrow> SpeakerProfile \<times> real" where
  "arg_best c [] = c"
| "arg_best c (d # ds) = arg_best (if snd d > snd c then d else c) ds"

text \<open>
  Modelled from the spec: the tie-break, which prefers the most recently active among the
  profiles at hand to the candidate.
\<close>

fun most_recent ::
  "SpeakerProfile \<times> real \<Rightarrow> (SpeakerProfile \<times> real) list \<Rightarrow> SpeakerProfile \<times> real" where
  "most_recent c [] = c"
| "most_recent c (d # ds) =
     most_recent (if last_seen (fst d) > last_seen (fst c) then d else c) ds"

text \<open>
  Modelled from the spec: the best match and the best score. The best match is the profile
  of the best score or, when several profiles are within epsilon of the best score, the
  most recently active of them. There is none when no profile is known.
\<close>

definition best_match ::
  "IdentifierConfig \<Rightarrow> real list \<Rightarrow> SpeakerProfile list \<Rightarrow> (SpeakerProfile \<times> real) option" where
  "best_match cfg e profiles =
     (case scores e profiles of
        [] \<Rightarrow> None
      | c # cs \<Rightarrow>
          (let b = arg_best c cs;
               near = filter (\<lambda>d. snd b - snd d \<le> tie_epsilon cfg) (c # cs)
           in Some (fst (most_recent b near), snd b)))"





section \<open>Chunk Ingest\<close>

text \<open>
  Modelled from the spec: the AudioChunk of the data model (section 3), with its PCM sample
  buffer, sample rate, capture timestamp and sequence number. The server-side ingest is
  not among the sources.
\<close>

record AudioChunk =
  pcm :: "real list"
  chunk_rate :: real
  capture_timestamp :: real
  sequence_number :: nat

text \<open>
  Modelled from the spec: what Chunk Ingest (section 4.1) needs of a session, namely the
  configured sample rate, the sequence number of the last chunk accepted (none before the
  first), the configurable threshold of the noise gate and the chunk-count statistic.
\<close>

record IngestSession =
  configured_rate :: real
  last_sequence :: "nat option"
  gate_threshold :: real
  chunks_processed :: nat

text \<open>Modelled from the spec: the error of section 7 for malformed input.\<close>

datatype ingest_error = InvalidChunkError

text \<open>
  Modelled from the spec: where an accepted chunk goes, a silent one to pass-through and
  any other into the pipeline.
\<close>

datatype route = PassThrough | Pipeline

text \<open>Modelled from the spec: the mean absolute amplitude of a non-empty buffer.\<close>

definition mean_absolute_amplitude :: "real list \<Rightarrow> real" where
  "mean_absolute_amplitude samples = sum_list (map abs samples) / real (length samples)"

text \<open>Modelled from the spec: a sequence number out of monotonic order for the session.\<close>

definition out_of_order :: "IngestSession \<Rightarrow> AudioChunk \<Rightarrow> bool" where
  "out_of_order sess c =
     (case last_sequence sess of None \<Rightarrow> False | Some n \<Rightarrow> sequence_number c \<le> n)"

text \<open>
  Modelled from the spec: Chunk Ingest. A chunk whose sample rate is not the session's,
  whose buffer has length zero or whose sequence number is out of order is rejected with
  \<open>InvalidChunkError\<close> and dropped: the session is as before. Any other chunk is accepted:
  its level is computed, the noise gate routes it, and the session's chunk count and last
  sequence number are updated. The result is the outcome (for an accepted chunk its route,
  its level and the chunk) and the session.
\<close>

definition ingest ::
  "IngestSession \<Rightarrow> AudioChunk \<Rightarrow> (ingest_error + route \<times> real \<times> AudioChunk) \<times> IngestSession" where
  "ingest sess c =
     (if chunk_rate c \<noteq> configured_rate sess \<or> pcm c = [] \<or> out_of_order sess c
      then (Inl InvalidChunkError, sess)
      else
        (let level = mean_absolute_amplitude (pcm c)
         in (Inr (if level < gate_threshold sess then PassThrough else Pipeline, level, c),
             sess\<lparr> last_sequence := Some (sequence_number c),
                   chunks_processed := chunks_processed sess + 1 \<rparr>)))"

section \<open>Loops as list functions\<close>

lemma preprocess_loop_char:
  "length outputBuffer = length inputBuffer \<Longrightarrow> i \<le> length inputBuffer \<Longrightarrow>
   preprocess_loop inputBuffer i outputBuffer
     = take i outputBuffer @ map preprocess_sample (drop i inputBuffer)"
proof (induction inputBuffer i outputBuffer rule: preprocess_loop.induct)
  case (1 inputBuffer i outputBuffer)
  show ?case
  proof (cases "i < length inputBuffer")
    case True
    let ?out = "outputBuffer[i := preprocess_sample (inputBuffer ! i)]"
    have e1: "preprocess_loop inputBuffer i outputBuffer = preprocess_loop inputBuffer (i + 1) ?out"
      using True by (subst preprocess_loop.simps) simp
    have e2: "preprocess_loop inputBuffer (i + 1) ?out
                = take (i + 1) ?out @ map preprocess_sample (drop (i + 1) inputBuffer)"
      using "1.IH" [OF True] "1.prems" True by simp
    have e3: "take (i + 1) ?out = take i outputBuffer @ [preprocess_sample (inputBuffer ! i)]"
      using True "1.prems" by (simp add: take_Suc_conv_app_nth)
    have e4: "drop i inputBuffer = inputBuffer ! i # drop (i + 1) inputBuffer"
      using True by (simp add: Cons_nth_drop_Suc)
    show ?thesis unfolding e1 e2 e3 e4 by simp
  next
    case False
    then have "i = length inputBuffer" using "1.prems" by simp
    then show ?thesis using "1.prems" by (subst preprocess_loop.simps) simp
  qed
qed

lemma preprocessAudio_map: "preprocessAudio inputBuffer = map preprocess_sample inputBuffer"
  unfolding preprocessAudio_def by (subst preprocess_loop_char) simp_all

lemma sum_abs_sum_list: "sum_abs xs acc = acc + sum_list (map abs xs)"
  by (induction xs arbitrary: acc) simp_all

section \<open>Properties of the compressor\<close>

lemma compress_identity: "\<bar>s\<bar> \<le> 0.7 \<Longrightarrow> compress s 0.7 0.5 = s"
  by (simp add: compress_def)

lemma compress_pos:
  "s > 0.7 \<Longrightarrow> compress s 0.7 0.5 = 0.7 + (s - 0.7) * 0.5"
  by (simp add: compress_def Let_def)

lemma compress_neg:
  "s < - 0.7 \<Longrightarrow> compress s 0.7 0.5 = - (0.7 + (- s - 0.7) * 0.5)"
  by (simp add: compress_def Let_def)

lemma compress_pos_bounds:
  assumes "s > 0.7"
  shows "0 < compress s 0.7 0.5" and "compress s 0.7 0.5 \<le> s"
  using assms unfolding compress_pos [OF assms] by (simp_all add: field_simps)

lemma compress_neg_bounds:
  assumes "s < - 0.7"
  shows "compress s 0.7 0.5 < 0" and "s \<le> compress s 0.7 0.5"
  using assms unfolding compress_neg [OF assms] by (simp_all add: field_simps)

lemma compress_sgn: "sgn (compress s 0.7 0.5) = sgn s"
proof -
  consider "s > 0.7" | "s < - 0.7" | "\<bar>s\<bar> \<le> 0.7" by linarith
  then show ?thesis
  proof cases
    case 1
    with compress_pos_bounds(1) [OF 1] show ?thesis by (simp only: sgn_real_def) auto
  next
    case 2
    with compress_neg_bounds(1) [OF 2] show ?thesis by (simp only: sgn_real_def) auto
  next
    case 3
    then show ?thesis by (simp only: compress_identity)
  qed
qed

lemma compress_abs_le: "\<bar>compress s 0.7 0.5\<bar> \<le> \<bar>s\<bar>"
proof -
  consider "s > 0.7" | "s < - 0.7" | "\<bar>s\<bar> \<le> 0.7" by linarith
  then show ?thesis
  proof cases
    case 1
    with compress_pos_bounds [OF 1] show ?thesis by linarith
  next
    case 2
    with compress_neg_bounds [OF 2] show ?thesis by linarith
  next
    case 3
    then show ?thesis by (simp only: compress_identity)
  qed
qed

lemma preprocess_sample_abs_le: "\<bar>preprocess_sample s\<bar> \<le> \<bar>s\<bar>"
proof (cases "\<bar>s\<bar> < 0.001")
  case True
  then show ?thesis by (simp add: preprocess_sample_def compress_def)
next
  case False
  then show ?thesis using compress_abs_le [of s] by (simp add: preprocess_sample_def)
qed

text \<open>
  C9. The compressor with threshold 0.7 and ratio 0.5 leaves every sample of magnitude at
  most 0.7 unchanged, keeps the sign of every sample, and never increases a magnitude;
  hence the per-sample preprocessing (gate, then compressor) never amplifies a sample.
\<close>

theorem compress_contract:
  "(\<bar>s\<bar> \<le> 0.7 \<longrightarrow> compress s 0.7 0.5 = s)
   \<and> sgn (compress s 0.7 0.5) = sgn s
   \<and> \<bar>compress s 0.7 0.5\<bar> \<le> \<bar>s\<bar>
   \<and> \<bar>preprocess_sample s\<bar> \<le> \<bar>s\<bar>"
  using compress_identity compress_sgn compress_abs_le preprocess_sample_abs_le by blast

theorem compress_contract_witness:
  "\<bar>1 / 2 :: real\<bar> \<le> 0.7 \<and> compress (1 / 2) 0.7 0.5 = 1 / 2
   \<and> sgn (compress (- 9 / 10) 0.7 0.5) = sgn (- 9 / 10 :: real)
   \<and> \<bar>compress (- 9 / 10) 0.7 0.5\<bar> \<le> \<bar>- 9 / 10 :: real\<bar>
   \<and> \<bar>preprocess_sample (- 9 / 10)\<bar> \<le> \<bar>- 9 / 10 :: real\<bar>"
  using compress_contract [of "1 / 2"] compress_contract [of "- 9 / 10"] by simp

section \<open>The cases of process\<close>

lemma process_no_input:
  "process sr t s [] outputs = (Inr True, s, outputs, [])"
  "process sr t s ([] # ins) outputs = (Inr True, s, outputs, [])"
  by (simp_all add: process_def)

lemma process_no_output:
  "process sr t s ((inCh # chs) # ins) [] = (Inl TypeError, s, [], [])"
  by (simp add: process_def)

lemma process_no_output_channel:
  "process sr t s ((inCh # chs) # ins) ([] # outs) =
     (if inCh = []
      then (Inr True, (with_sampleRate s sr)\<lparr> frameCount := frameCount s + 1 \<rparr>, [] # outs, [])
      else (Inl TypeError, with_sampleRate s sr, [] # outs, []))"
  by (simp add: process_def with_sampleRate_def)

lemma process_frame:
  "process_loop t inCh 0 (with_sampleRate s sr, outCh, []) = (s2, outCh', posted) \<Longrightarrow>
   process sr t s ((inCh # chs) # ins) ((outCh # ochs) # outs) =
     (Inr True, s2\<lparr> frameCount := frameCount s2 + 1 \<rparr>, (outCh' # ochs) # outs, posted)"
  by (simp add: process_def)

lemma process_cases:
  obtains
    (no_input) "process sr t s inputs outputs = (Inr True, s, outputs, [])"
  | (type_error) s1 where "process sr t s inputs outputs = (Inl TypeError, s1, outputs, [])"
      and "s1 = s \<or> s1 = with_sampleRate s sr"
  | (empty_frame) "process sr t s inputs outputs =
        (Inr True, (with_sampleRate s sr)\<lparr> frameCount := frameCount s + 1 \<rparr>, outputs, [])"
  | (frame) inCh chs ins outCh ochs outs s2 outCh' posted
      where "inputs = (inCh # chs) # ins" and "outputs = (outCh # ochs) # outs"
      and "process_loop t inCh 0 (with_sampleRate s sr, outCh, []) = (s2, outCh', posted)"
      and "process sr t s inputs outputs =
        (Inr True, s2\<lparr> frameCount := frameCount s2 + 1 \<rparr>, (outCh' # ochs) # outs, posted)"
proof (cases inputs)
  case Nil
  then show ?thesis using no_input by (simp add: process_no_input)
next
  case (Cons input ins)
  show ?thesis
  proof (cases input)
    case Nil
    then show ?thesis using no_input Cons by (simp add: process_no_input)
  next
    case inp: (Cons inCh chs)
    show ?thesis
    proof (cases outputs)
      case Nil
      then show ?thesis using type_error [of s] Cons inp by (simp add: process_no_output)
    next
      case outs: (Cons out0 outs)
      show ?thesis
      proof (cases out0)
        case Nil
        then show ?thesis
          using type_error [of "with_sampleRate s sr"] empty_frame Cons inp outs
          by (cases "inCh = []") (simp_all add: process_no_output_channel)
      next
        case outp: (Cons outCh ochs)
        obtain s2 outCh' posted
          where l: "process_loop t inCh 0 (with_sampleRate s sr, outCh, []) = (s2, outCh', posted)"
          by (cases "process_loop t inCh 0 (with_sampleRate s sr, outCh, [])")
        show ?thesis
          using frame [OF _ _ l] process_frame [OF l] Cons inp outs outp by simp
      qed
    qed
  qed
qed

section \<open>Invariants of the buffer\<close>

text \<open>
  A property of the state that every buffered sample keeps, and that does not depend on
  the frame count and the sample rate, is kept by the loop of \<open>process\<close> and by \<open>process\<close>.
\<close>

lemma process_loop_preserves:
  assumes "\<And>u posted x. P u \<Longrightarrow> P (fst (buffer_sample t (u, posted) x))" and "P s"
  shows "P (fst (process_loop t xs i (s, out, posted)))"
  using assms(2)
proof (induction xs arbitrary: s i out posted)
  case Nil
  then show ?case by simp
next
  case (Cons x xs)
  obtain s' posted' where b: "buffer_sample t (s, posted) x = (s', posted')"
    by (cases "buffer_sample t (s, posted) x")
  have "P s'" using assms(1) [OF Cons.prems, of posted x] b by simp
  then show ?case using Cons.IH b by simp
qed

lemma process_preserves:
  assumes "\<And>u posted x. P u \<Longrightarrow> P (fst (buffer_sample t (u, posted) x))"
    and "\<And>u k. P (u\<lparr> frameCount := k \<rparr>) = P u"
    and "\<And>u k. P (u\<lparr> sampleRate := k \<rparr>) = P u"
    and "P s"
  shows "P (fst (snd (process sr t s inputs outputs)))"
proof -
  have w: "P (with_sampleRate s sr)" using assms(3,4) by (simp add: with_sampleRate_def)
  show ?thesis
  proof (cases rule: process_cases [of sr t s inputs outputs])
    case no_input
    then show ?thesis using assms(4) by simp
  next
    case (type_error s1)
    then show ?thesis using assms(4) w by auto
  next
    case empty_frame
    then show ?thesis using w assms(2) by simp
  next
    case (frame inCh chs ins outCh ochs outs s2 outCh' posted)
    from process_loop_preserves [where P = P, OF assms(1) w, of inCh 0 outCh "[]"] frame(3)
    have "P s2" by simp
    then show ?thesis using frame(4) assms(2) by simp
  qed
qed

subsection \<open>Resizing\<close>

lemma updateBufferSize_Num:
  "updateBufferSize s (SizeNumber (Num r)) =
     (None, s\<lparr> bufferSize := Num (max 1024 (min 8192 r)),
               buffer := replicate (nat \<lfloor>max 1024 (min 8192 r)\<rfloor>) 0,
               bufferIndex := 0 \<rparr>)"
proof -
  have "\<not> (max 1024 (min 8192 r) \<le> - 1 \<or> max 1024 (min 8192 r) \<ge> (2 :: real) ^ 53)"
    by simp
  then show ?thesis by (simp add: updateBufferSize_def Let_def del: max_less_iff_conj)
qed

lemma updateBufferSize_PosInfinity:
  "updateBufferSize s (SizeNumber PosInfinity) =
     (None, s\<lparr> bufferSize := Num 8192, buffer := replicate 8192 0, bufferIndex := 0 \<rparr>)"
  by (simp add: updateBufferSize_def Let_def)

lemma updateBufferSize_NegInfinity:
  "updateBufferSize s (SizeNumber NegInfinity) =
     (None, s\<lparr> bufferSize := Num 1024, buffer := replicate 1024 0, bufferIndex := 0 \<rparr>)"
  by (simp add: updateBufferSize_def Let_def)

lemma updateBufferSize_NaN:
  "updateBufferSize s (SizeNumber NaN) =
     (None, s\<lparr> bufferSize := NaN, buffer := [], bufferIndex := 0 \<rparr>)"
  by (simp add: updateBufferSize_def Let_def)

lemma updateBufferSize_BigInt: "updateBufferSize s SizeBigInt = (Some TypeError, s)"
  by (simp add: updateBufferSize_def)

lemma floor_clamp: "1024 \<le> nat \<lfloor>max 1024 (min 8192 r :: real)\<rfloor>"
  "nat \<lfloor>max 1024 (min 8192 r :: real)\<rfloor> \<le> 8192"
proof -
  have "(1024 :: int) \<le> \<lfloor>max 1024 (min 8192 r)\<rfloor>" by (simp add: le_floor_iff)
  then show "1024 \<le> nat \<lfloor>max 1024 (min 8192 r :: real)\<rfloor>" by linarith
  have "\<lfloor>max 1024 (min 8192 r)\<rfloor> \<le> (8192 :: int)" by (simp add: floor_le_iff)
  then show "nat \<lfloor>max 1024 (min 8192 r :: real)\<rfloor> \<le> 8192" by linarith
qed

subsection \<open>The invariant for an integer size\<close>

lemma buffer_inv_constructor: "buffer_inv constructor"
  by (simp add: buffer_inv_def constructor_def)

lemma buffer_inv_buffer_sample:
  "buffer_inv s \<Longrightarrow> buffer_inv (fst (buffer_sample t (s, posted) x))"
  by (auto simp: buffer_inv_def buffer_sample_def Let_def)

lemma buffer_inv_frameCount: "buffer_inv (u\<lparr> frameCount := k \<rparr>) = buffer_inv u"
  by (simp add: buffer_inv_def)

lemma buffer_inv_sampleRate: "buffer_inv (u\<lparr> sampleRate := k \<rparr>) = buffer_inv u"
  by (simp add: buffer_inv_def)

lemma buffer_inv_with_sampleRate: "buffer_inv (with_sampleRate s sr) = buffer_inv s"
  by (simp add: with_sampleRate_def buffer_inv_sampleRate)

lemma buffer_inv_process_loop:
  "buffer_inv s \<Longrightarrow> buffer_inv (fst (process_loop t xs i (s, out, posted)))"
  by (rule process_loop_preserves [where P = buffer_inv]) (simp_all add: buffer_inv_buffer_sample)

lemma buffer_inv_process:
  "buffer_inv s \<Longrightarrow> buffer_inv (fst (snd (process sr t s inputs outputs)))"
  by (rule process_preserves [where P = buffer_inv and t = t])
     (simp_all add: buffer_inv_buffer_sample buffer_inv_frameCount buffer_inv_sampleRate)

lemma buffer_inv_integer_size:
  "buffer_inv (handleMessage s (SetBufferSize (SizeNumber (Num (of_int n)))))"
proof -
  have m: "max 1024 (min 8192 (of_int n :: real)) = of_int (max 1024 (min 8192 n))"
    by (simp add: max_def min_def)
  have "nat \<lfloor>max 1024 (min 8192 (of_int n :: real))\<rfloor> = nat (max 1024 (min 8192 n))"
    unfolding m by simp
  moreover have "real (nat (max 1024 (min 8192 n))) = of_int (max 1024 (min 8192 n))"
    by simp
  ultimately show ?thesis
    using floor_clamp [of "of_int n"]
    by (simp add: updateBufferSize_Num buffer_inv_def m del: max_less_iff_conj)
qed

subsection \<open>The invariant for any size\<close>

lemma size_inv_constructor: "size_inv constructor"
  by (simp add: size_inv_def constructor_def)

lemma size_inv_buffer_sample:
  "size_inv s \<Longrightarrow> size_inv (fst (buffer_sample t (s, posted) x))"
  by (auto simp: size_inv_def buffer_sample_def Let_def)

lemma size_inv_frameCount: "size_inv (u\<lparr> frameCount := k \<rparr>) = size_inv u"
  by (simp add: size_inv_def)

lemma size_inv_sampleRate: "size_inv (u\<lparr> sampleRate := k \<rparr>) = size_inv u"
  by (simp add: size_inv_def)

lemma size_inv_with_sampleRate: "size_inv (with_sampleRate s sr) = size_inv s"
  by (simp add: with_sampleRate_def size_inv_sampleRate)

lemma size_inv_process_loop:
  "size_inv s \<Longrightarrow> size_inv (fst (process_loop t xs i (s, out, posted)))"
  by (rule process_loop_preserves [where P = size_inv]) (simp_all add: size_inv_buffer_sample)

lemma size_inv_process:
  "size_inv s \<Longrightarrow> size_inv (fst (snd (process sr t s inputs outputs)))"
  by (rule process_preserves [where P = size_inv and t = t])
     (simp_all add: size_inv_buffer_sample size_inv_frameCount size_inv_sampleRate)

lemma size_inv_updateBufferSize:
  assumes "size_inv s"
  shows "size_inv (snd (updateBufferSize s v))"
proof (cases v)
  case SizeBigInt
  then show ?thesis using assms by (simp add: updateBufferSize_BigInt)
next
  case (SizeNumber x)
  show ?thesis
  proof (cases x)
    case (Num r)
    then show ?thesis using SizeNumber
      by (simp add: updateBufferSize_Num size_inv_def del: max_less_iff_conj)
  next
    case PosInfinity
    then show ?thesis using SizeNumber by (simp add: updateBufferSize_PosInfinity size_inv_def)
  next
    case NegInfinity
    then show ?thesis using SizeNumber by (simp add: updateBufferSize_NegInfinity size_inv_def)
  next
    case NaN
    then show ?thesis using SizeNumber by (simp add: updateBufferSize_NaN size_inv_def)
  qed
qed

lemma size_inv_handleMessage: "size_inv s \<Longrightarrow> size_inv (handleMessage s m)"
  by (cases m) (simp_all add: size_inv_updateBufferSize, simp_all add: size_inv_def)

lemma size_inv_step: "size_inv s \<Longrightarrow> size_inv (fst (step s e))"
proof (cases e)
  case (Message m)
  assume "size_inv s"
  then show ?thesis using Message by (simp add: size_inv_handleMessage)
next
  case (Frame sr t inputs outputs)
  assume "size_inv s"
  then show ?thesis using Frame size_inv_process [of s sr t inputs outputs]
    by (cases "process sr t s inputs outputs") simp
qed

lemma reachable_size_inv: "reachable s \<Longrightarrow> size_inv s"
  by (induction rule: reachable.induct) (simp_all add: size_inv_constructor size_inv_step)

subsection \<open>The invariant when no size is NaN\<close>

lemma index_inv_constructor: "index_inv constructor"
  by (simp add: index_inv_def constructor_def)

lemma index_inv_buffer_sample:
  "index_inv s \<Longrightarrow> index_inv (fst (buffer_sample t (s, posted) x))"
  by (cases "bufferSize s") (auto simp: index_inv_def buffer_sample_def Let_def)

lemma index_inv_frameCount: "index_inv (u\<lparr> frameCount := k \<rparr>) = index_inv u"
  by (simp add: index_inv_def)

lemma index_inv_sampleRate: "index_inv (u\<lparr> sampleRate := k \<rparr>) = index_inv u"
  by (simp add: index_inv_def)

lemma index_inv_with_sampleRate: "index_inv (with_sampleRate s sr) = index_inv s"
  by (simp add: with_sampleRate_def index_inv_sampleRate)

lemma index_inv_process_loop:
  "index_inv s \<Longrightarrow> index_inv (fst (process_loop t xs i (s, out, posted)))"
  by (rule process_loop_preserves [where P = index_inv]) (simp_all add: index_inv_buffer_sample)

lemma index_inv_process:
  "index_inv s \<Longrightarrow> index_inv (fst (snd (process sr t s inputs outputs)))"
  by (rule process_preserves [where P = index_inv and t = t])
     (simp_all add: index_inv_buffer_sample index_inv_frameCount index_inv_sampleRate)

lemma index_inv_step:
  assumes "index_inv s" and "numeric_size e"
  shows "index_inv (fst (step s e))"
proof (cases e)
  case (Frame sr t inputs outputs)
  then show ?thesis using assms(1) index_inv_process [of s sr t inputs outputs]
    by (cases "process sr t s inputs outputs") simp
next
  case (Message m)
  show ?thesis
  proof (cases m)
    case (SetBufferSize v)
    show ?thesis
    proof (cases v)
      case SizeBigInt
      then show ?thesis using assms(1) Message SetBufferSize
        by (simp add: updateBufferSize_BigInt)
    next
      case (SizeNumber x)
      then show ?thesis using assms(2) Message SetBufferSize
        by (cases x)
           (simp_all add: updateBufferSize_Num updateBufferSize_PosInfinity
             updateBufferSize_NegInfinity index_inv_def del: max_less_iff_conj)
    qed
  qed (use assms(1) Message in \<open>simp_all add: index_inv_def\<close>)
qed

lemma index_inv_run:
  "index_inv s \<Longrightarrow> \<forall>e \<in> set es. numeric_size e \<Longrightarrow> index_inv (fst (run s es))"
proof (induction es arbitrary: s)
  case Nil
  then show ?case by simp
next
  case (Cons e es)
  obtain s1 p1 where st: "step s e = (s1, p1)" by (cases "step s e")
  have "index_inv s1" using index_inv_step [of s e] Cons.prems st by simp
  from Cons.IH [OF this] Cons.prems(2) show ?case
    using st by (cases "run s1 es") simp
qed

section \<open>The loop of process\<close>

lemma process_loop_output:
  "process_loop t xs i (s, out, posted) = (s', out', posted') \<Longrightarrow>
   length out' = length out \<and>
   (\<forall>j < length out. out' ! j = (if i \<le> j \<and> j < i + length xs then xs ! (j - i) else out ! j))"
proof (induction xs arbitrary: i s out posted)
  case Nil
  then show ?case by simp
next
  case (Cons x xs)
  obtain s1 posted1 where b: "buffer_sample t (s, posted) x = (s1, posted1)"
    by (cases "buffer_sample t (s, posted) x")
  from Cons.prems b
  have l: "process_loop t xs (i + 1) (s1, out[i := x], posted1) = (s', out', posted')"
    by simp
  from Cons.IH [OF l]
  have len: "length out' = length out"
    and nth: "\<And>j. j < length out \<Longrightarrow>
      out' ! j = (if i + 1 \<le> j \<and> j < i + 1 + length xs then xs ! (j - (i + 1)) else out[i := x] ! j)"
    by simp_all
  show ?case
  proof (intro conjI allI impI)
    show "length out' = length out" by (rule len)
  next
    fix j assume j: "j < length out"
    show "out' ! j = (if i \<le> j \<and> j < i + length (x # xs) then (x # xs) ! (j - i) else out ! j)"
    proof (cases "j = i")
      case True
      then show ?thesis using nth [OF j] j by simp
    next
      case False
      then show ?thesis using nth [OF j] j by (auto simp: nth_Cons')
    qed
  qed
qed

lemma buffer_sample_stopped:
  "\<not> isProcessing s \<Longrightarrow> buffer_sample t (s, posted) x = (s, posted)"
  by (simp add: buffer_sample_def)

lemma process_loop_stopped:
  "\<not> isProcessing s \<Longrightarrow>
   \<exists>out'. process_loop t xs i (s, out, posted) = (s, out', posted)"
  by (induction xs arbitrary: i out) (simp_all add: buffer_sample_stopped)

lemma isProcessing_with_sampleRate: "isProcessing (with_sampleRate s sr) = isProcessing s"
  by (simp add: with_sampleRate_def)

lemma process_stopped:
  assumes "\<not> isProcessing s"
  shows "\<not> isProcessing (fst (snd (process sr t s inputs outputs)))
         \<and> snd (snd (snd (process sr t s inputs outputs))) = []"
proof -
  have a: "\<not> isProcessing (with_sampleRate s sr)"
    using assms by (simp add: isProcessing_with_sampleRate)
  show ?thesis
  proof (cases rule: process_cases [of sr t s inputs outputs])
    case no_input
    then show ?thesis using assms by simp
  next
    case (type_error s1)
    then show ?thesis using assms a by auto
  next
    case empty_frame
    then show ?thesis using a by simp
  next
    case (frame inCh chs ins outCh ochs outs s2 outCh' posted)
    from process_loop_stopped [OF a, of t inCh 0 outCh "[]"] frame(3)
    have "s2 = with_sampleRate s sr" "posted = []" by auto
    then show ?thesis using frame(4) a by simp
  qed
qed

lemma isProcessing_updateBufferSize:
  "isProcessing (snd (updateBufferSize s v)) = isProcessing s"
proof (cases v)
  case SizeBigInt
  then show ?thesis by (simp add: updateBufferSize_BigInt)
next
  case (SizeNumber x)
  then show ?thesis
    by (cases x)
       (simp_all add: updateBufferSize_Num updateBufferSize_PosInfinity
         updateBufferSize_NegInfinity updateBufferSize_NaN)
qed

lemma step_stopped:
  assumes "\<not> isProcessing s" and "e \<noteq> Message Start"
  shows "\<not> isProcessing (fst (step s e)) \<and> snd (step s e) = []"
proof (cases e)
  case (Message m)
  then show ?thesis using assms by (cases m) (simp_all add: isProcessing_updateBufferSize)
next
  case (Frame sr t inputs outputs)
  then show ?thesis using process_stopped [OF assms(1), of sr t inputs outputs]
    by (cases "process sr t s inputs outputs") simp
qed

lemma run_stopped:
  "\<not> isProcessing s \<Longrightarrow> Message Start \<notin> set es \<Longrightarrow>
   \<not> isProcessing (fst (run s es)) \<and> snd (run s es) = []"
proof (induction es arbitrary: s)
  case Nil
  then show ?case by simp
next
  case (Cons e es)
  from Cons.prems have ne: "e \<noteq> Message Start" and rest: "Message Start \<notin> set es" by auto
  obtain s1 p1 where st: "step s e = (s1, p1)" by (cases "step s e")
  with step_stopped [OF Cons.prems(1) ne] have s1: "\<not> isProcessing s1" and p1: "p1 = []" by simp_all
  obtain s2 p2 where r: "run s1 es = (s2, p2)" by (cases "run s1 es")
  with Cons.IH [OF s1 rest] have "\<not> isProcessing s2" "p2 = []" by simp_all
  then show ?case using st r p1 by simp
qed


lemma buffer_sample_running:
  assumes "isProcessing s" and "buffer_inv s"
  shows "buffer_sample t (s, posted) x =
     (if bufferIndex s + 1 = size_slots (bufferSize s)
      then (s\<lparr> buffer := (buffer s)[bufferIndex s := x], bufferIndex := 0 \<rparr>,
            posted @ [processBuffer t (s\<lparr> buffer := (buffer s)[bufferIndex s := x],
                                         bufferIndex := bufferIndex s + 1 \<rparr>)])
      else (s\<lparr> buffer := (buffer s)[bufferIndex s := x], bufferIndex := bufferIndex s + 1 \<rparr>,
            posted))"
  using assms by (auto simp: buffer_sample_def Let_def buffer_inv_def)

lemma process_loop_count:
  assumes "isProcessing s" and "buffer_inv s"
    and "process_loop t xs i (s, out, posted) = (s', out', posted')"
  shows "length posted' = length posted + (bufferIndex s + length xs) div size_slots (bufferSize s)
         \<and> bufferIndex s' = (bufferIndex s + length xs) mod size_slots (bufferSize s)
         \<and> bufferSize s' = bufferSize s \<and> isProcessing s'"
  using assms
proof (induction xs arbitrary: i s out posted)
  case Nil
  then show ?case by (auto simp: buffer_inv_def)
next
  case (Cons x xs)
  let ?n = "size_slots (bufferSize s)"
  have npos: "0 < ?n" and lt: "bufferIndex s < ?n"
    using Cons.prems(2) by (auto simp: buffer_inv_def)
  obtain s1 posted1 where b: "buffer_sample t (s, posted) x = (s1, posted1)"
    by (cases "buffer_sample t (s, posted) x")
  have inv1: "buffer_inv s1"
    using buffer_inv_buffer_sample [OF Cons.prems(2), of t posted x] b by simp
  from Cons.prems(3) b
  have l: "process_loop t xs (i + 1) (s1, out[i := x], posted1) = (s', out', posted')" by simp
  show ?case
  proof (cases "bufferIndex s + 1 = ?n")
    case True
    with b buffer_sample_running [OF Cons.prems(1,2), of t posted x] Cons.prems(1)
    have s1: "isProcessing s1" "bufferSize s1 = bufferSize s" "bufferIndex s1 = 0"
      and p1: "length posted1 = length posted + 1" by auto
    from Cons.IH [OF s1(1) inv1 l] s1 p1
    have "length posted' = length posted + 1 + length xs div ?n"
      and "bufferIndex s' = length xs mod ?n"
      and "bufferSize s' = bufferSize s" and "isProcessing s'" by simp_all
    moreover have e: "bufferIndex s + length (x # xs) = ?n + length xs" using True by simp
    moreover have "(?n + length xs) div ?n = 1 + length xs div ?n"
      and "(?n + length xs) mod ?n = length xs mod ?n"
      using npos by simp_all
    ultimately show ?thesis unfolding e by simp
  next
    case False
    with b buffer_sample_running [OF Cons.prems(1,2), of t posted x] Cons.prems(1)
    have s1: "isProcessing s1" "bufferSize s1 = bufferSize s" "bufferIndex s1 = bufferIndex s + 1"
      and p1: "posted1 = posted" by auto
    from Cons.IH [OF s1(1) inv1 l] s1 p1
    show ?thesis by simp
  qed
qed


lemma process_loop_append:
  "process_loop t (xs @ ys) i r = process_loop t ys (i + length xs) (process_loop t xs i r)"
proof (induction xs arbitrary: i r)
  case Nil
  then show ?case by simp
next
  case (Cons x xs)
  obtain s out posted where r: "r = (s, out, posted)" by (cases r)
  obtain s1 posted1 where b: "buffer_sample t (s, posted) x = (s1, posted1)"
    by (cases "buffer_sample t (s, posted) x")
  show ?case using Cons.IH [of "i + 1" "(s1, out[i := x], posted1)"] r b by simp
qed

lemma processBuffer_bufferIndex: "processBuffer t (s\<lparr> bufferIndex := j \<rparr>) = processBuffer t s"
  by (simp add: processBuffer_def)

lemma process_loop_fill:
  assumes "isProcessing s" and "buffer_inv s"
    and "bufferIndex s + length xs < size_slots (bufferSize s)"
  shows "\<exists>out'. process_loop t xs i (s, out, posted) =
     (s\<lparr> buffer := take (bufferIndex s) (buffer s) @ xs
                    @ drop (bufferIndex s + length xs) (buffer s),
          bufferIndex := bufferIndex s + length xs \<rparr>, out', posted)"
  using assms
proof (induction xs arbitrary: i s out)
  case Nil
  then show ?case by simp
next
  case (Cons x xs)
  let ?k = "bufferIndex s"
  let ?s1 = "s\<lparr> buffer := (buffer s)[?k := x], bufferIndex := ?k + 1 \<rparr>"
  have len: "length (buffer s) = size_slots (bufferSize s)" and k: "?k < length (buffer s)"
    using Cons.prems(2) by (auto simp: buffer_inv_def)
  have ne: "?k + 1 \<noteq> size_slots (bufferSize s)" using Cons.prems(3) by simp
  have b: "buffer_sample t (s, posted) x = (?s1, posted)"
    using buffer_sample_running [OF Cons.prems(1,2), of t posted x] ne by simp
  have p1: "isProcessing ?s1" using Cons.prems(1) by simp
  have inv1: "buffer_inv ?s1"
    using buffer_inv_buffer_sample [OF Cons.prems(2), of t posted x] b by simp
  have lt1: "bufferIndex ?s1 + length xs < size_slots (bufferSize ?s1)" using Cons.prems(3) by simp
  from Cons.IH [OF p1 inv1 lt1, of "i + 1" "out[i := x]"]
  obtain out' where l: "process_loop t xs (i + 1) (?s1, out[i := x], posted) =
     (?s1\<lparr> buffer := take (bufferIndex ?s1) (buffer ?s1) @ xs
                    @ drop (bufferIndex ?s1 + length xs) (buffer ?s1),
          bufferIndex := bufferIndex ?s1 + length xs \<rparr>, out', posted)"
    by blast
  have t1: "take (?k + 1) ((buffer s)[?k := x]) = take ?k (buffer s) @ [x]"
    using k by (simp add: take_Suc_conv_app_nth)
  have d1: "drop (?k + 1 + length xs) ((buffer s)[?k := x]) = drop (?k + 1 + length xs) (buffer s)"
    by simp
  show ?case using b l t1 d1 by simp
qed

lemma process_loop_chunk:
  assumes "isProcessing s" and "buffer_inv s"
    and "xs \<noteq> []" and "bufferIndex s + length xs = size_slots (bufferSize s)"
  shows "\<exists>out'. process_loop t xs i (s, out, posted) =
     (s\<lparr> buffer := take (bufferIndex s) (buffer s) @ xs, bufferIndex := 0 \<rparr>, out',
      posted @ [processBuffer t (s\<lparr> buffer := take (bufferIndex s) (buffer s) @ xs \<rparr>)])"
proof -
  let ?k = "bufferIndex s"
  obtain ys y where xs: "xs = ys @ [y]" using assms(3) by (cases xs rule: rev_cases) auto
  have lt: "?k + length ys < size_slots (bufferSize s)" using assms(4) xs by simp
  let ?s1 = "s\<lparr> buffer := take ?k (buffer s) @ ys @ drop (?k + length ys) (buffer s),
                   bufferIndex := ?k + length ys \<rparr>"
  from process_loop_fill [OF assms(1,2) lt, of t i out posted]
  obtain out1 where l1: "process_loop t ys i (s, out, posted) = (?s1, out1, posted)" by blast
  have len: "length (buffer s) = size_slots (bufferSize s)"
    using assms(2) by (simp add: buffer_inv_def)
  have inv1: "buffer_inv ?s1"
    using buffer_inv_process_loop [OF assms(2), of t ys i out posted] l1 by simp
  have p1: "isProcessing ?s1" using assms(1) by simp
  have full: "bufferIndex ?s1 + 1 = size_slots (bufferSize ?s1)" using assms(4) xs by simp
  have upd: "(buffer ?s1)[bufferIndex ?s1 := y] = take ?k (buffer s) @ ys @ [y]"
  proof -
    have "length (drop (?k + length ys) (buffer s)) = 1" using len full by simp
    then obtain z where z: "drop (?k + length ys) (buffer s) = [z]"
      by (cases "drop (?k + length ys) (buffer s)") auto
    have lk: "length (take ?k (buffer s)) = ?k" using len lt by simp
    have "(take ?k (buffer s) @ ys @ [z])[?k + length ys := y] = take ?k (buffer s) @ ys @ [y]"
      using lk by (simp add: list_update_append)
    then show ?thesis using z by simp
  qed
  have b: "buffer_sample t (?s1, posted) y =
      (?s1\<lparr> buffer := take ?k (buffer s) @ ys @ [y], bufferIndex := 0 \<rparr>,
       posted @ [processBuffer t (?s1\<lparr> buffer := take ?k (buffer s) @ ys @ [y],
                                         bufferIndex := bufferIndex ?s1 + 1 \<rparr>)])"
    using buffer_sample_running [OF p1 inv1, of t posted y] full upd by simp
  have "process_loop t xs i (s, out, posted)
          = process_loop t [y] (i + length ys) (?s1, out1, posted)"
    unfolding xs process_loop_append l1 by simp
  also have "\<dots> = (?s1\<lparr> buffer := take ?k (buffer s) @ ys @ [y], bufferIndex := 0 \<rparr>,
       out1[i + length ys := y],
       posted @ [processBuffer t (?s1\<lparr> buffer := take ?k (buffer s) @ ys @ [y],
                                         bufferIndex := bufferIndex ?s1 + 1 \<rparr>)])"
    using b by simp
  finally show ?thesis using xs by (simp add: processBuffer_def)
qed

section \<open>Posted chunks\<close>

lemma calculateAudioLevel_mean:
  "calculateAudioLevel buf = js_div (sum_list (map abs buf)) (real (length buf))"
  by (simp add: calculateAudioLevel_def sum_abs_sum_list)

lemma processBuffer_fields:
  "processBuffer t s =
     \<lparr> chunk_type = ''audio_chunk'',
       chunk_audioBuffer = map preprocess_sample (buffer s),
       chunk_sampleRate = sampleRate s,
       chunk_level = js_div (sum_list (map abs (buffer s))) (real (length (buffer s))),
       chunk_timestamp = t * 1000 \<rparr>"
  by (simp add: processBuffer_def Let_def preprocessAudio_map calculateAudioLevel_mean)

lemma handleAudioData_open:
  "isActive cs \<Longrightarrow> websocket cs = Some OPEN \<Longrightarrow>
   handleAudioData cs now m =
     [JObj [(''type'', JStr ''audio_chunk''),
            (''data'', JArr (map JNum (chunk_audioBuffer m))),
            (''sampleRate'', JNum (chunk_sampleRate m)),
            (''timestamp'', JNum now)]]"
  by (simp add: handleAudioData_def)

lemma preprocess_sample_cases:
  "preprocess_sample x =
     (if \<bar>x\<bar> < 0.001 then 0
      else if \<bar>x\<bar> > 0.7
           then (if x \<ge> 0 then 0.7 + (x - 0.7) * 0.5 else - (0.7 + (- x - 0.7) * 0.5))
           else x)"
proof -
  consider "\<bar>x\<bar> < 0.001" | "x > 0.7" | "x < - 0.7" | "0.001 \<le> \<bar>x\<bar> \<and> \<bar>x\<bar> \<le> 0.7"
    by linarith
  then show ?thesis
  proof cases
    case 1
    then show ?thesis by (simp add: preprocess_sample_def compress_def)
  next
    case 2
    then have "\<not> \<bar>x\<bar> < 0.001" "\<bar>x\<bar> > 0.7" "x \<ge> 0" by simp_all
    then show ?thesis using compress_pos [OF 2] by (simp add: preprocess_sample_def)
  next
    case 3
    then have "\<not> \<bar>x\<bar> < 0.001" "\<bar>x\<bar> > 0.7" "\<not> x \<ge> 0" by simp_all
    then show ?thesis using compress_neg [OF 3] by (simp add: preprocess_sample_def)
  next
    case 4
    then have "\<not> \<bar>x\<bar> < 0.001" "\<not> \<bar>x\<bar> > 0.7" by simp_all
    then show ?thesis using compress_identity [of x] 4 by (simp add: preprocess_sample_def)
  qed
qed

lemma process_loop_posted_prefix:
  "\<exists>new. snd (snd (process_loop t xs i (s, out, posted))) = posted @ new"
proof (induction xs arbitrary: i s out posted)
  case Nil
  then show ?case by simp
next
  case (Cons x xs)
  obtain s1 posted1 where b: "buffer_sample t (s, posted) x = (s1, posted1)"
    by (cases "buffer_sample t (s, posted) x")
  then obtain n1 where n1: "posted1 = posted @ n1"
    by (auto simp: buffer_sample_def Let_def split: if_splits)
  from Cons.IH [of "i + 1" s1 "out[i := x]" posted1]
  obtain n2 where "snd (snd (process_loop t xs (i + 1) (s1, out[i := x], posted1))) = posted1 @ n2"
    by blast
  then show ?case using b n1 by simp
qed

lemma size_in_range_slots:
  assumes "size_in_range x"
  shows "1024 \<le> size_slots x" and "size_slots x \<le> 8192"
proof -
  obtain r where x: "x = Num r" and r: "1024 \<le> r" "r \<le> 8192"
    using assms by (cases x) simp_all
  have "(1024 :: int) \<le> \<lfloor>r\<rfloor>" using r by (simp add: le_floor_iff)
  then show "1024 \<le> size_slots x" using x by simp linarith
  have "\<lfloor>r\<rfloor> \<le> (8192 :: int)" using r by (simp add: floor_le_iff)
  then show "size_slots x \<le> 8192" using x by simp linarith
qed

lemma processBuffer_holds:
  assumes "1024 \<le> length (buffer s)" and "length (buffer s) \<le> 8192"
  shows "chunk_holds (length (buffer s)) (processBuffer t s)"
proof -
  have "buffer s \<noteq> []" using assms(1) by auto
  then show ?thesis using assms
    by (simp add: chunk_holds_def processBuffer_fields js_div_def)
qed

lemma buffer_sample_bufferSize:
  "bufferSize (fst (buffer_sample t (s, posted) x)) = bufferSize s"
  by (simp add: buffer_sample_def Let_def)

lemma buffer_sample_holds:
  assumes "size_inv s" and "list_all (chunk_holds (size_slots (bufferSize s))) posted"
  shows "list_all (chunk_holds (size_slots (bufferSize s))) (snd (buffer_sample t (s, posted) x))"
proof (cases "isProcessing s \<and> js_index_ge (bufferIndex s + 1) (bufferSize s)")
  case False
  then show ?thesis using assms(2) by (auto simp: buffer_sample_def Let_def)
next
  case True
  let ?s1 = "s\<lparr> buffer := (buffer s)[bufferIndex s := x], bufferIndex := bufferIndex s + 1 \<rparr>"
  from True have "bufferSize s \<noteq> NaN" by auto
  with assms(1) have rng: "size_in_range (bufferSize s)"
    and len: "length (buffer s) = size_slots (bufferSize s)"
    by (simp_all add: size_inv_def)
  have "chunk_holds (length (buffer ?s1)) (processBuffer t ?s1)"
    using size_in_range_slots [OF rng] len by (intro processBuffer_holds) simp_all
  then have "chunk_holds (size_slots (bufferSize s)) (processBuffer t ?s1)"
    using len by simp
  then show ?thesis using True assms(2) by (simp add: buffer_sample_def Let_def)
qed

lemma process_loop_holds:
  "size_inv s \<Longrightarrow> list_all (chunk_holds (size_slots (bufferSize s))) posted \<Longrightarrow>
   list_all (chunk_holds (size_slots (bufferSize s)))
     (snd (snd (process_loop t xs i (s, out, posted))))"
proof (induction xs arbitrary: i s out posted)
  case Nil
  then show ?case by simp
next
  case (Cons x xs)
  obtain s1 posted1 where b: "buffer_sample t (s, posted) x = (s1, posted1)"
    by (cases "buffer_sample t (s, posted) x")
  have inv1: "size_inv s1"
    using size_inv_buffer_sample [OF Cons.prems(1), of t posted x] b by simp
  have sz: "bufferSize s1 = bufferSize s"
    using buffer_sample_bufferSize [of t s posted x] b by simp
  have h1: "list_all (chunk_holds (size_slots (bufferSize s1))) posted1"
    using buffer_sample_holds [OF Cons.prems, of t x] b sz by simp
  show ?case using Cons.IH [OF inv1 h1] b sz by simp
qed

lemma process_holds:
  assumes "size_inv s"
  shows "list_all (chunk_holds (size_slots (bufferSize s)))
           (snd (snd (snd (process sr t s inputs outputs))))"
proof (cases rule: process_cases [of sr t s inputs outputs])
  case no_input
  then show ?thesis by simp
next
  case (type_error s1)
  then show ?thesis by simp
next
  case empty_frame
  then show ?thesis by simp
next
  case (frame inCh chs ins outCh ochs outs s2 outCh' posted)
  have w: "size_inv (with_sampleRate s sr)"
    using assms by (simp add: size_inv_with_sampleRate)
  have sz: "bufferSize (with_sampleRate s sr) = bufferSize s"
    by (simp add: with_sampleRate_def)
  from process_loop_holds [OF w, of "[]" t inCh 0 outCh] frame(3) sz
  have "list_all (chunk_holds (size_slots (bufferSize s))) posted" by simp
  then show ?thesis using frame(4) by simp
qed

lemma step_holds:
  assumes "size_inv s"
  shows "list_all (chunk_holds (size_slots (bufferSize s))) (snd (step s e))"
proof (cases e)
  case (Message m)
  then show ?thesis by simp
next
  case (Frame sr t inputs outputs)
  then show ?thesis using process_holds [OF assms, of sr t inputs outputs]
    by (cases "process sr t s inputs outputs") simp
qed

section \<open>Resizing the buffer\<close>

text \<open>
  C8, as the code has it. After a \<open>set_buffer_size\<close> message whose size is a number \<open>r\<close>
  (not \<open>NaN\<close>) the buffer size is \<open>max 1024 (min 8192 r)\<close>, the buffer is a fresh one of
  as many slots as the integer part of the buffer size, and the write index is 0; for an
  integer \<open>n\<close> the buffer has exactly buffer size slots. An infinite size is clamped
  likewise. Consequently, as long as no \<open>set_buffer_size\<close> message handled had the size
  \<open>NaN\<close>, at every point of the loop of every frame the write index is below the buffer
  size.
\<close>

theorem set_buffer_size_contract:
  "bufferSize (handleMessage s (SetBufferSize (SizeNumber (Num r)))) = Num (max 1024 (min 8192 r))
   \<and> buffer (handleMessage s (SetBufferSize (SizeNumber (Num r))))
       = replicate (nat \<lfloor>max 1024 (min 8192 r)\<rfloor>) 0
   \<and> bufferIndex (handleMessage s (SetBufferSize (SizeNumber (Num r)))) = 0
   \<and> bufferSize (handleMessage s (SetBufferSize (SizeNumber (Num (of_int n)))))
       = Num (of_int (max 1024 (min 8192 n)))
   \<and> bufferSize (handleMessage s (SetBufferSize (SizeNumber (Num (of_int n)))))
       = Num (real (length (buffer (handleMessage s (SetBufferSize (SizeNumber (Num (of_int n))))))))
   \<and> bufferSize (handleMessage s (SetBufferSize (SizeNumber PosInfinity))) = Num 8192
   \<and> bufferSize (handleMessage s (SetBufferSize (SizeNumber NegInfinity))) = Num 1024
   \<and> ((\<forall>e \<in> set es. numeric_size e) \<longrightarrow>
        js_index_less
          (bufferIndex (fst (process_loop t xs i
             (with_sampleRate (fst (run constructor es)) sr, out, posted))))
          (bufferSize (fst (process_loop t xs i
             (with_sampleRate (fst (run constructor es)) sr, out, posted)))))"
proof -
  have m: "max 1024 (min 8192 (of_int n :: real)) = of_int (max 1024 (min 8192 n))"
    by (simp add: max_def min_def)
  have a: "bufferSize (handleMessage s (SetBufferSize (SizeNumber (Num (of_int n)))))
       = Num (of_int (max 1024 (min 8192 n)))"
    by (simp add: updateBufferSize_Num m del: max_less_iff_conj)
  have b: "bufferSize (handleMessage s (SetBufferSize (SizeNumber (Num (of_int n)))))
       = Num (real (length (buffer (handleMessage s (SetBufferSize (SizeNumber (Num (of_int n))))))))"
    using buffer_inv_integer_size [of s n] by (simp add: buffer_inv_def)
  have c: "js_index_less
          (bufferIndex (fst (process_loop t xs i
             (with_sampleRate (fst (run constructor es)) sr, out, posted))))
          (bufferSize (fst (process_loop t xs i
             (with_sampleRate (fst (run constructor es)) sr, out, posted))))"
    if "\<forall>e \<in> set es. numeric_size e"
  proof -
    have "index_inv (fst (run constructor es))"
      using index_inv_run [OF index_inv_constructor that] .
    then have "index_inv (with_sampleRate (fst (run constructor es)) sr)"
      by (simp add: index_inv_with_sampleRate)
    then have "index_inv (fst (process_loop t xs i
             (with_sampleRate (fst (run constructor es)) sr, out, posted)))"
      by (rule index_inv_process_loop)
    then show ?thesis by (simp add: index_inv_def)
  qed
  show ?thesis
    using a b c
    by (simp add: updateBufferSize_Num updateBufferSize_PosInfinity updateBufferSize_NegInfinity
        del: max_less_iff_conj)
qed

text \<open>
  The constructor's state resized to 1500.5 and to 100, and a frame handled after the first
  of these.
\<close>

theorem set_buffer_size_contract_witness:
  "bufferSize (handleMessage constructor (SetBufferSize (SizeNumber (Num (3001 / 2))))) = Num (3001 / 2)
   \<and> buffer (handleMessage constructor (SetBufferSize (SizeNumber (Num (3001 / 2)))))
       = replicate 1500 0
   \<and> bufferSize (handleMessage constructor (SetBufferSize (SizeNumber (Num (of_int 100))))) = Num 1024
   \<and> length (buffer (handleMessage constructor (SetBufferSize (SizeNumber (Num (of_int 100)))))) = 1024
   \<and> numeric_size (Message (SetBufferSize (SizeNumber (Num (3001 / 2)))))
   \<and> js_index_less
        (bufferIndex (fst (process_loop 0 [1 / 2, 1 / 4] 0
           (with_sampleRate
              (fst (run constructor [Message (SetBufferSize (SizeNumber (Num (3001 / 2))))]))
              48000, [0, 0], []))))
        (bufferSize (fst (process_loop 0 [1 / 2, 1 / 4] 0
           (with_sampleRate
              (fst (run constructor [Message (SetBufferSize (SizeNumber (Num (3001 / 2))))]))
              48000, [0, 0], []))))"
proof -
  have f: "nat \<lfloor>3001 / 2 :: real\<rfloor> = 1500" by linarith
  note T = set_buffer_size_contract [of constructor "3001 / 2" 100
        "[Message (SetBufferSize (SizeNumber (Num (3001 / 2))))]" 0 "[1 / 2, 1 / 4]" 0 48000
        "[0, 0]" "[]"]
  have h: "\<forall>e \<in> set [Message (SetBufferSize (SizeNumber (Num (3001 / 2))))]. numeric_size e"
    by simp
  have c1: "bufferSize (handleMessage constructor (SetBufferSize (SizeNumber (Num (3001 / 2)))))
              = Num (3001 / 2)"
    using T by simp
  have c2: "buffer (handleMessage constructor (SetBufferSize (SizeNumber (Num (3001 / 2)))))
              = replicate 1500 0"
    using T f by simp
  have c3: "bufferSize (handleMessage constructor (SetBufferSize (SizeNumber (Num (of_int 100)))))
              = Num 1024"
    by (simp add: updateBufferSize_Num)
  have c4: "length (buffer (handleMessage constructor (SetBufferSize (SizeNumber (Num (of_int 100))))))
              = 1024"
    by (simp add: updateBufferSize_Num)
  have c5: "numeric_size (Message (SetBufferSize (SizeNumber (Num (3001 / 2)))))" by simp
  have c6: "js_index_less
        (bufferIndex (fst (process_loop 0 [1 / 2, 1 / 4] 0
           (with_sampleRate
              (fst (run constructor [Message (SetBufferSize (SizeNumber (Num (3001 / 2))))]))
              48000, [0, 0], []))))
        (bufferSize (fst (process_loop 0 [1 / 2, 1 / 4] 0
           (with_sampleRate
              (fst (run constructor [Message (SetBufferSize (SizeNumber (Num (3001 / 2))))]))
              48000, [0, 0], []))))"
    using T h by blast
  show ?thesis using c1 c2 c3 c4 c5 c6 by blast
qed

text \<open>
  The claim as stated fails for a size that is no integer. After the size 1500.5 the buffer
  size is 1500.5 and the buffer has 1500 slots. After a size that converts to \<open>NaN\<close>, as a
  missing one does, the buffer size is \<open>NaN\<close> and the buffer has no slot; the write index
  is then never below the buffer size, it grows with every sample and no chunk is posted.
\<close>

theorem set_buffer_size_counterexample:
  "bufferSize (handleMessage constructor (SetBufferSize (SizeNumber (Num (3001 / 2))))) = Num (3001 / 2)
   \<and> length (buffer (handleMessage constructor (SetBufferSize (SizeNumber (Num (3001 / 2)))))) = 1500
   \<and> bufferSize (handleMessage constructor (SetBufferSize (SizeNumber NaN))) = NaN
   \<and> buffer (handleMessage constructor (SetBufferSize (SizeNumber NaN))) = []
   \<and> bufferIndex (fst (process_loop 0 [1 / 2, 1 / 4] 0
        (handleMessage constructor (SetBufferSize (SizeNumber NaN)), [0, 0], []))) = 2
   \<and> snd (snd (process_loop 0 [1 / 2, 1 / 4] 0
        (handleMessage constructor (SetBufferSize (SizeNumber NaN)), [0, 0], []))) = []
   \<and> \<not> js_index_less 2 NaN"
proof -
  have f: "nat \<lfloor>3001 / 2 :: real\<rfloor> = 1500" by linarith
  show ?thesis
    by (simp add: updateBufferSize_Num updateBufferSize_NaN f buffer_sample_def Let_def
        constructor_def)
qed

section \<open>Pass-through of the played audio\<close>

text \<open>
  C6. For every frame with an input channel and an output channel, whatever the state of
  the processor (processing enabled or not), \<open>process\<close> returns true and leaves in the
  first output channel, at every index \<open>i\<close> of the frame, the input sample at \<open>i\<close>; when the
  two channels have the same length, as the frames of the audio worklet do, the output
  channel is the input channel.
\<close>

theorem process_passthrough:
  "fst (process sr t s ((inCh # chs) # ins) ((outCh # ochs) # outs)) = Inr True
   \<and> (\<exists>outCh'.
        fst (snd (snd (process sr t s ((inCh # chs) # ins) ((outCh # ochs) # outs))))
          = (outCh' # ochs) # outs
        \<and> length outCh' = length outCh
        \<and> (\<forall>i. i < length inCh \<and> i < length outCh \<longrightarrow> outCh' ! i = inCh ! i)
        \<and> (length outCh = length inCh \<longrightarrow> outCh' = inCh))"
proof -
  obtain s2 outCh' posted
    where l: "process_loop t inCh 0 (with_sampleRate s sr, outCh, []) = (s2, outCh', posted)"
    by (cases "process_loop t inCh 0 (with_sampleRate s sr, outCh, [])")
  from process_loop_output [OF l]
  have len: "length outCh' = length outCh"
    and nth: "\<And>j. j < length outCh \<Longrightarrow> j < length inCh \<Longrightarrow> outCh' ! j = inCh ! j"
    by simp_all
  have eq: "length outCh = length inCh \<Longrightarrow> outCh' = inCh"
    using len nth by (simp add: nth_equalityI)
  show ?thesis
    unfolding process_frame [OF l, of chs ins ochs outs]
    using len nth eq by auto
qed

text \<open>A frame of two samples handled while processing is stopped.\<close>

theorem process_passthrough_witness:
  "fst (process 44100 0 (handleMessage constructor Stop) [[[1 / 4, - 1 / 2]]] [[[0, 0]]]) = Inr True
   \<and> fst (snd (snd (process 44100 0 (handleMessage constructor Stop)
         [[[1 / 4, - 1 / 2]]] [[[0, 0]]]))) = [[[1 / 4, - 1 / 2]]]"
  using process_passthrough [of 44100 0 "handleMessage constructor Stop"
      "[1 / 4, - 1 / 2]" "[]" "[]" "[0, 0]" "[]" "[]"]
  by auto

section \<open>Stopping\<close>

lemma cs_step_stopped:
  assumes "\<not> isActive cs" and "websocket cs = None" and "\<not> is_start e"
  shows "\<not> isActive (fst (cs_step cs e)) \<and> websocket (fst (cs_step cs e)) = None
         \<and> snd (cs_step cs e) = []"
  using assms
  by (cases e) (simp_all add: stopDubbing_def updateSettings_def handleAudioData_def Let_def)

lemma cs_run_stopped:
  "\<not> isActive cs \<Longrightarrow> websocket cs = None \<Longrightarrow> \<forall>e \<in> set evs. \<not> is_start e \<Longrightarrow>
   snd (cs_run cs evs) = []"
proof (induction evs arbitrary: cs)
  case Nil
  then show ?case by simp
next
  case (Cons e evs)
  obtain cs1 sent1 where st: "cs_step cs e = (cs1, sent1)" by (cases "cs_step cs e")
  from Cons.prems have ne: "\<not> is_start e" and rest: "\<forall>e \<in> set evs. \<not> is_start e" by auto
  from cs_step_stopped [OF Cons.prems(1,2) ne] st
  have a: "\<not> isActive cs1" and w: "websocket cs1 = None" and s1: "sent1 = []" by simp_all
  obtain cs2 sent2 where r: "cs_run cs1 evs = (cs2, sent2)" by (cases "cs_run cs1 evs")
  with Cons.IH [OF a w rest] have "sent2 = []" by simp
  then show ?case using st r s1 by simp
qed

lemma stopDubbing_stopped: "\<not> isActive (stopDubbing cs) \<and> websocket (stopDubbing cs) = None"
  by (simp add: stopDubbing_def Let_def)

text \<open>
  C3. After the worklet has handled a \<open>stop\<close> message, no run of messages and frames
  without a \<open>start\<close> message posts an audio chunk; and after the content script has
  stopped dubbing (it is inactive and has closed and dropped its WebSocket), no run of its
  events without a start sends anything to the server, whatever chunks arrive from the
  worklet.
\<close>

theorem no_chunk_after_stop:
  "(Message Start \<notin> set es \<longrightarrow> snd (run (handleMessage s Stop) es) = [])
   \<and> ((\<forall>e \<in> set evs. \<not> is_start e) \<longrightarrow> snd (cs_run (stopDubbing cs) evs) = [])"
proof (intro conjI impI)
  assume "Message Start \<notin> set es"
  then show "snd (run (handleMessage s Stop) es) = []"
    using run_stopped [of "handleMessage s Stop" es] by simp
next
  assume "\<forall>e \<in> set evs. \<not> is_start e"
  then show "snd (cs_run (stopDubbing cs) evs) = []"
    using cs_run_stopped [of "stopDubbing cs" evs] stopDubbing_stopped [of cs] by simp
qed

text \<open>A stopped worklet fed a frame, and a stopped content script fed a chunk.\<close>

theorem no_chunk_after_stop_witness:
  "Message Start \<notin> set [Frame 44100 0 [[[1 / 2]]] [[[0]]], Message (SetBufferSize (SizeNumber (Num 1024)))]
   \<and> snd (run (handleMessage constructor Stop)
        [Frame 44100 0 [[[1 / 2]]] [[[0]]], Message (SetBufferSize (SizeNumber (Num 1024)))]) = []
   \<and> \<not> is_start (AudioData 0 (processBuffer 0 constructor))
   \<and> \<not> is_start (UpdateSettings (JObj []))
   \<and> snd (cs_run (stopDubbing \<lparr> isActive = True, websocket = Some OPEN \<rparr>)
        [AudioData 0 (processBuffer 0 constructor), UpdateSettings (JObj [])]) = []"
  using no_chunk_after_stop [of "[Frame 44100 0 [[[1 / 2]]] [[[0]]], Message (SetBufferSize (SizeNumber (Num 1024)))]"
      constructor "[AudioData 0 (processBuffer 0 constructor), UpdateSettings (JObj [])]"
      "\<lparr> isActive = True, websocket = Some OPEN \<rparr>"]
  by simp

section \<open>The audio chunk messages\<close>

lemma process_single_chunk:
  assumes "xs \<noteq> []" and "length xs = 2048"
  shows "snd (snd (snd (process 44100 t constructor [[xs]] [[out]])))
           = [processBuffer t (constructor\<lparr> buffer := xs \<rparr>)]"
proof -
  have p: "isProcessing (with_sampleRate constructor 44100)"
    and inv: "buffer_inv (with_sampleRate constructor 44100)"
    and c: "with_sampleRate constructor 44100 = constructor"
    by (simp_all add: with_sampleRate_def constructor_def buffer_inv_def)
  have full: "bufferIndex (with_sampleRate constructor 44100) + length xs
                = size_slots (bufferSize (with_sampleRate constructor 44100))"
    using assms(2) by (simp add: with_sampleRate_def constructor_def)
  from process_loop_chunk [OF p inv assms(1) full, of t 0 out "[]"]
  obtain out' where l: "process_loop t xs 0 (with_sampleRate constructor 44100, out, []) =
     (constructor\<lparr> buffer := take (bufferIndex constructor) (buffer constructor) @ xs,
                   bufferIndex := 0 \<rparr>, out',
      [processBuffer t (constructor\<lparr> buffer := take (bufferIndex constructor) (buffer constructor) @ xs \<rparr>)])"
    unfolding c by auto
  have "bufferIndex constructor = 0" by (simp add: constructor_def)
  then show ?thesis using process_frame [OF l, of "[]" "[]" "[]" "[]"] by simp
qed

text \<open>
  C4, as the code has it. While processing is enabled, the loop of \<open>process\<close> posts one
  chunk each time the buffer fills: over a stretch of input the number of chunks posted is
  the number of times the write index, advancing by one per sample, reaches the buffer
  size. The chunk posted carries the preprocessed copy of the buffered samples (each sample
  through the gate and the compressor), the sample rate, the level and the time stamp. An
  active content script with an open socket sends for it exactly one \<open>audio_chunk\<close> message
  with the keys \<open>type\<close>, \<open>data\<close> (the preprocessed samples), \<open>sampleRate\<close> and
  \<open>timestamp\<close> (the time of sending).
\<close>

theorem audio_chunk_messages:
  "isProcessing s \<Longrightarrow> buffer_inv s \<Longrightarrow>
   length (snd (snd (process_loop t xs i (s, out, posted))))
     = length posted + (bufferIndex s + length xs) div size_slots (bufferSize s)
   \<and> bufferIndex (fst (process_loop t xs i (s, out, posted)))
     = (bufferIndex s + length xs) mod size_slots (bufferSize s)
   \<and> (xs \<noteq> [] \<and> bufferIndex s + length xs = size_slots (bufferSize s) \<longrightarrow>
        snd (snd (process_loop t xs i (s, out, posted)))
          = posted @ [\<lparr> chunk_type = ''audio_chunk'',
                         chunk_audioBuffer = map preprocess_sample (take (bufferIndex s) (buffer s) @ xs),
                         chunk_sampleRate = sampleRate s,
                         chunk_level = js_div (sum_list (map abs (take (bufferIndex s) (buffer s) @ xs)))
                                         (real (size_slots (bufferSize s))),
                         chunk_timestamp = t * 1000 \<rparr>])
   \<and> (isActive cs \<and> websocket cs = Some OPEN \<longrightarrow>
        handleAudioData cs now m =
          [JObj [(''type'', JStr ''audio_chunk''),
                 (''data'', JArr (map JNum (chunk_audioBuffer m))),
                 (''sampleRate'', JNum (chunk_sampleRate m)),
                 (''timestamp'', JNum now)]])"
proof -
  assume p: "isProcessing s" and inv: "buffer_inv s"
  obtain s' out' posted' where l: "process_loop t xs i (s, out, posted) = (s', out', posted')"
    by (cases "process_loop t xs i (s, out, posted)")
  note cnt = process_loop_count [OF p inv l]
  have chunk: "posted' = posted @ [\<lparr> chunk_type = ''audio_chunk'',
                         chunk_audioBuffer = map preprocess_sample (take (bufferIndex s) (buffer s) @ xs),
                         chunk_sampleRate = sampleRate s,
                         chunk_level = js_div (sum_list (map abs (take (bufferIndex s) (buffer s) @ xs)))
                                         (real (size_slots (bufferSize s))),
                         chunk_timestamp = t * 1000 \<rparr>]"
    if ne: "xs \<noteq> []" and full: "bufferIndex s + length xs = size_slots (bufferSize s)"
  proof -
    define B where "B = take (bufferIndex s) (buffer s) @ xs"
    have len: "length B = size_slots (bufferSize s)"
      using inv full by (simp add: buffer_inv_def B_def)
    from process_loop_chunk [OF p inv ne full, of t i out posted] l
    have "posted' = posted @ [processBuffer t (s\<lparr> buffer := B \<rparr>)]"
      by (auto simp: B_def)
    also have "processBuffer t (s\<lparr> buffer := B \<rparr>) =
        \<lparr> chunk_type = ''audio_chunk'', chunk_audioBuffer = map preprocess_sample B,
          chunk_sampleRate = sampleRate s,
          chunk_level = js_div (sum_list (map abs B)) (real (size_slots (bufferSize s))),
          chunk_timestamp = t * 1000 \<rparr>"
      by (simp add: processBuffer_fields len)
    finally show ?thesis unfolding B_def .
  qed
  show ?thesis
    using cnt chunk l handleAudioData_open [of cs now m] by simp
qed

text \<open>The constructor's state fed one full buffer of samples of value 0.9.\<close>

theorem audio_chunk_messages_witness:
  "isProcessing constructor \<and> buffer_inv constructor
   \<and> replicate 2048 (9 / 10 :: real) \<noteq> []
   \<and> bufferIndex constructor + length (replicate 2048 (9 / 10 :: real)) = size_slots (bufferSize constructor)
   \<and> length (snd (snd (process_loop 0 (replicate 2048 (9 / 10)) 0
         (constructor, replicate 2048 0, [])))) = 1
   \<and> bufferIndex (fst (process_loop 0 (replicate 2048 (9 / 10)) 0
         (constructor, replicate 2048 0, []))) = 0
   \<and> handleAudioData \<lparr> isActive = True, websocket = Some OPEN \<rparr> 5 (processBuffer 0 constructor)
       = [JObj [(''type'', JStr ''audio_chunk''),
                (''data'', JArr (map JNum (chunk_audioBuffer (processBuffer 0 constructor)))),
                (''sampleRate'', JNum (chunk_sampleRate (processBuffer 0 constructor))),
                (''timestamp'', JNum 5)]]"
proof -
  have p: "isProcessing constructor" by (simp add: constructor_def)
  have inv: "buffer_inv constructor" by (rule buffer_inv_constructor)
  have sz: "bufferIndex constructor = 0" "bufferSize constructor = Num 2048"
    by (simp_all add: constructor_def)
  show ?thesis
    using audio_chunk_messages [OF p inv, of 0 "replicate 2048 (9 / 10)" 0 "replicate 2048 0" "[]"
        "\<lparr> isActive = True, websocket = Some OPEN \<rparr>" 5 "processBuffer 0 constructor"]
      p inv sz
    by simp
qed

text \<open>
  The claim as stated fails: for a full buffer of samples of value 0.9 the message sent
  carries the compressed samples 0.8 as \<open>data\<close>, not the buffered samples, and it has no
  key \<open>sample_rate\<close>.
\<close>

theorem audio_chunk_fields_counterexample:
  "snd (snd (snd (process 44100 0 constructor [[replicate 2048 (9 / 10)]] [[replicate 2048 0]])))
     = [\<lparr> chunk_type = ''audio_chunk'', chunk_audioBuffer = replicate 2048 (4 / 5),
          chunk_sampleRate = 44100, chunk_level = Num (9 / 10), chunk_timestamp = 0 \<rparr>]
   \<and> handleAudioData \<lparr> isActive = True, websocket = Some OPEN \<rparr> 5
        \<lparr> chunk_type = ''audio_chunk'', chunk_audioBuffer = replicate 2048 (4 / 5),
          chunk_sampleRate = 44100, chunk_level = Num (9 / 10), chunk_timestamp = 0 \<rparr>
     = [JObj [(''type'', JStr ''audio_chunk''),
              (''data'', JArr (replicate 2048 (JNum (4 / 5)))),
              (''sampleRate'', JNum 44100),
              (''timestamp'', JNum 5)]]
   \<and> JArr (replicate 2048 (JNum (4 / 5))) \<noteq> JArr (map JNum (replicate 2048 (9 / 10)))
   \<and> map_of [(''type'', JStr ''audio_chunk''),
              (''data'', JArr (replicate 2048 (JNum (4 / 5)))),
              (''sampleRate'', JNum 44100),
              (''timestamp'', JNum 5)] ''sample_rate'' = None"
proof -
  have ps: "preprocess_sample (9 / 10) = 4 / 5"
    by (simp add: preprocess_sample_cases)
  have a: "snd (snd (snd (process 44100 0 constructor [[replicate 2048 (9 / 10)]] [[replicate 2048 0]])))
     = [\<lparr> chunk_type = ''audio_chunk'', chunk_audioBuffer = replicate 2048 (4 / 5),
          chunk_sampleRate = 44100, chunk_level = Num (9 / 10), chunk_timestamp = 0 \<rparr>]"
    by (subst process_single_chunk)
       (simp_all add: processBuffer_fields ps sum_list_replicate js_div_def constructor_def)
  have b: "handleAudioData \<lparr> isActive = True, websocket = Some OPEN \<rparr> 5
        \<lparr> chunk_type = ''audio_chunk'', chunk_audioBuffer = replicate 2048 (4 / 5),
          chunk_sampleRate = 44100, chunk_level = Num (9 / 10), chunk_timestamp = 0 \<rparr>
     = [JObj [(''type'', JStr ''audio_chunk''),
              (''data'', JArr (replicate 2048 (JNum (4 / 5)))),
              (''sampleRate'', JNum 44100),
              (''timestamp'', JNum 5)]]"
    by (simp add: handleAudioData_def)
  have c: "replicate 2048 (JNum (4 / 5)) \<noteq> map JNum (replicate 2048 (9 / 10))"
    by simp
  show ?thesis using a b c by simp
qed

section \<open>The noise gate\<close>

text \<open>
  C2, as the code has it. The mean absolute amplitude of a chunk is computed and reported
  as its level, and nothing else is done with it: there is no silent tag and no short
  circuit, and a chunk is posted whenever the buffer fills, whatever its level. The gate
  works sample by sample with the fixed threshold 0.001: in the copy that is forwarded a
  sample of magnitude below 0.001 is 0, a sample of magnitude above 0.7 is compressed, and
  every other sample is unchanged.
\<close>

theorem noise_gate_per_sample:
  "chunk_level (processBuffer t s) = js_div (sum_list (map abs (buffer s))) (real (length (buffer s)))
   \<and> length (chunk_audioBuffer (processBuffer t s)) = length (buffer s)
   \<and> (\<forall>i < length (buffer s).
        chunk_audioBuffer (processBuffer t s) ! i =
          (if \<bar>buffer s ! i\<bar> < 0.001 then 0
           else if \<bar>buffer s ! i\<bar> > 0.7
                then (if buffer s ! i \<ge> 0 then 0.7 + (buffer s ! i - 0.7) * 0.5
                      else - (0.7 + (- (buffer s ! i) - 0.7) * 0.5))
                else buffer s ! i))
   \<and> (isProcessing s \<and> buffer_inv s \<and> bufferIndex s + 1 = size_slots (bufferSize s) \<longrightarrow>
        snd (buffer_sample t (s, posted) x)
          = posted @ [processBuffer t (s\<lparr> buffer := (buffer s)[bufferIndex s := x] \<rparr>)])"
proof -
  have a: "\<forall>i < length (buffer s).
        chunk_audioBuffer (processBuffer t s) ! i =
          (if \<bar>buffer s ! i\<bar> < 0.001 then 0
           else if \<bar>buffer s ! i\<bar> > 0.7
                then (if buffer s ! i \<ge> 0 then 0.7 + (buffer s ! i - 0.7) * 0.5
                      else - (0.7 + (- (buffer s ! i) - 0.7) * 0.5))
                else buffer s ! i)"
    by (simp only: processBuffer_fields AudioChunkMessage.simps nth_map
        preprocess_sample_cases [symmetric]) simp
  have b: "snd (buffer_sample t (s, posted) x)
          = posted @ [processBuffer t (s\<lparr> buffer := (buffer s)[bufferIndex s := x] \<rparr>)]"
    if "isProcessing s" and "buffer_inv s" and "bufferIndex s + 1 = size_slots (bufferSize s)"
    using buffer_sample_running [OF that(1,2), of t posted x] that(3)
    by (simp add: processBuffer_def)
  show ?thesis using a b by (simp add: processBuffer_fields)
qed

text \<open>A buffer of three samples, and the last sample of a buffer of 2048.\<close>

theorem noise_gate_per_sample_witness:
  "(1 :: nat) < length (buffer (constructor\<lparr> buffer := [1 / 2000, 1 / 2, 9 / 10] \<rparr>))
   \<and> chunk_audioBuffer (processBuffer 0 (constructor\<lparr> buffer := [1 / 2000, 1 / 2, 9 / 10] \<rparr>)) ! 1
       = 1 / 2
   \<and> chunk_level (processBuffer 0 (constructor\<lparr> buffer := [1 / 2000, 1 / 2, 9 / 10] \<rparr>))
       = Num (2801 / 6000)
   \<and> isProcessing (constructor\<lparr> bufferIndex := 2047 \<rparr>)
   \<and> buffer_inv (constructor\<lparr> bufferIndex := 2047 \<rparr>)
   \<and> bufferIndex (constructor\<lparr> bufferIndex := 2047 \<rparr>) + 1
       = size_slots (bufferSize (constructor\<lparr> bufferIndex := 2047 \<rparr>))
   \<and> length (snd (buffer_sample 0 (constructor\<lparr> bufferIndex := 2047 \<rparr>, []) (1 / 2000))) = 1"
proof -
  have h: "isProcessing (constructor\<lparr> bufferIndex := 2047 \<rparr>)"
    "buffer_inv (constructor\<lparr> bufferIndex := 2047 \<rparr>)"
    "bufferIndex (constructor\<lparr> bufferIndex := 2047 \<rparr>) + 1
       = size_slots (bufferSize (constructor\<lparr> bufferIndex := 2047 \<rparr>))"
    by (simp_all add: constructor_def buffer_inv_def)
  show ?thesis
    using noise_gate_per_sample [of 0 "constructor\<lparr> buffer := [1 / 2000, 1 / 2, 9 / 10] \<rparr>"]
      noise_gate_per_sample [of 0 "constructor\<lparr> bufferIndex := 2047 \<rparr>" "[]" "1 / 2000"] h
    by (simp add: js_div_def)
qed

text \<open>
  The claim as stated fails: a full buffer of samples of value 0.0005, whose mean absolute
  amplitude 0.0005 is below the gate's threshold, is not passed on unchanged; the chunk
  posted for it holds the samples 0.
\<close>

theorem noise_gate_counterexample:
  "snd (run constructor [Frame 44100 0 [[replicate 2048 (1 / 2000)]] [[replicate 2048 0]]])
     = [\<lparr> chunk_type = ''audio_chunk'', chunk_audioBuffer = replicate 2048 0,
          chunk_sampleRate = 44100, chunk_level = Num (1 / 2000), chunk_timestamp = 0 \<rparr>]
   \<and> (1 / 2000 :: real) < 0.001
   \<and> replicate 2048 (0 :: real) \<noteq> replicate 2048 (1 / 2000)"
proof -
  have ps: "preprocess_sample (1 / 2000) = 0"
    by (simp add: preprocess_sample_cases)
  have a: "snd (snd (snd (process 44100 0 constructor [[replicate 2048 (1 / 2000)]] [[replicate 2048 0]])))
     = [\<lparr> chunk_type = ''audio_chunk'', chunk_audioBuffer = replicate 2048 0,
          chunk_sampleRate = 44100, chunk_level = Num (1 / 2000), chunk_timestamp = 0 \<rparr>]"
    by (subst process_single_chunk)
       (simp_all add: processBuffer_fields ps sum_list_replicate js_div_def constructor_def)
  have c: "replicate 2048 (0 :: real) \<noteq> replicate 2048 (1 / 2000)" by simp
  show ?thesis using a c
    by (cases "process 44100 0 constructor [[replicate 2048 (1 / 2000)]] [[replicate 2048 0]]")
      simp
qed

section \<open>Chunks of length zero\<close>

lemma ingest_accepted:
  assumes "fst (ingest sess c) = Inr (r, level, c')"
  shows "pcm c \<noteq> []" and "chunk_rate c = configured_rate sess" and "\<not> out_of_order sess c"
    and "c' = c" and "level = mean_absolute_amplitude (pcm c)"
    and "chunks_processed (snd (ingest sess c)) = chunks_processed sess + 1"
  using assms by (auto simp: ingest_def Let_def split: if_splits)

text \<open>
  C5. Chunk Ingest rejects every chunk whose sample buffer has length zero by reporting
  \<open>InvalidChunkError\<close>, whatever its sample rate and sequence number, and the chunk is not
  processed: the session, with its chunk count, is as before, and no level is computed. A
  level is computed only for an accepted chunk, whose buffer is not empty, and a chunk that
  is not empty, has the session's sample rate and is in order is accepted. On the side of
  the sources, the worklet never submits a chunk of length zero: every chunk posted by a
  step from a reachable state, whatever sizes were posted to the worklet, holds as many
  samples as the buffer has slots, between 1024 and 8192, and has a finite level.
\<close>

theorem zero_length_chunk_rejected:
  "(pcm c = [] \<longrightarrow>
      fst (ingest sess c) = Inl InvalidChunkError \<and> snd (ingest sess c) = sess)
   \<and> (fst (ingest sess c) = Inr (r, level, c') \<longrightarrow>
      pcm c \<noteq> [] \<and> c' = c \<and> level = mean_absolute_amplitude (pcm c)
      \<and> chunks_processed (snd (ingest sess c)) = chunks_processed sess + 1)
   \<and> (pcm c \<noteq> [] \<and> chunk_rate c = configured_rate sess \<and> \<not> out_of_order sess c \<longrightarrow>
      (\<exists>r level. fst (ingest sess c) = Inr (r, level, c)))
   \<and> (reachable s \<longrightarrow>
      (\<forall>m \<in> set (snd (step s e)).
         chunk_audioBuffer m \<noteq> []
         \<and> length (chunk_audioBuffer m) = size_slots (bufferSize s)
         \<and> 1024 \<le> length (chunk_audioBuffer m) \<and> length (chunk_audioBuffer m) \<le> 8192
         \<and> (\<exists>v. chunk_level m = Num v)))"
proof (intro conjI impI ballI)
  assume "pcm c = []"
  then show "fst (ingest sess c) = Inl InvalidChunkError" "snd (ingest sess c) = sess"
    by (simp_all add: ingest_def)
next
  assume a: "fst (ingest sess c) = Inr (r, level, c')"
  show "pcm c \<noteq> []" by (rule ingest_accepted(1) [OF a])
  show "c' = c" by (rule ingest_accepted(4) [OF a])
  show "level = mean_absolute_amplitude (pcm c)" by (rule ingest_accepted(5) [OF a])
  show "chunks_processed (snd (ingest sess c)) = chunks_processed sess + 1"
    by (rule ingest_accepted(6) [OF a])
next
  assume "pcm c \<noteq> [] \<and> chunk_rate c = configured_rate sess \<and> \<not> out_of_order sess c"
  then show "\<exists>r level. fst (ingest sess c) = Inr (r, level, c)"
    by (simp add: ingest_def Let_def)
next
  fix m
  assume r: "reachable s" and m: "m \<in> set (snd (step s e))"
  from step_holds [OF reachable_size_inv [OF r], of e] m
  have h: "chunk_holds (size_slots (bufferSize s)) m" by (simp add: list_all_iff)
  then show "length (chunk_audioBuffer m) = size_slots (bufferSize s)"
    and "1024 \<le> length (chunk_audioBuffer m)" and "length (chunk_audioBuffer m) \<le> 8192"
    by (simp_all add: chunk_holds_def)
  then show "chunk_audioBuffer m \<noteq> []" by auto
  from h show "\<exists>v. chunk_level m = Num v"
    by (cases "chunk_level m") (simp_all add: chunk_holds_def)
qed

text \<open>
  A session at 16000 Hz offered an empty chunk and a chunk of two samples, and the
  constructor's state fed one full buffer of samples of value 0.5.
\<close>

theorem zero_length_chunk_rejected_witness:
  "pcm \<lparr> pcm = [], chunk_rate = 16000, capture_timestamp = 0, sequence_number = 1 \<rparr> = []
   \<and> fst (ingest \<lparr> configured_rate = 16000, last_sequence = None, gate_threshold = 1 / 100,
                    chunks_processed = 0 \<rparr>
             \<lparr> pcm = [], chunk_rate = 16000, capture_timestamp = 0, sequence_number = 1 \<rparr>)
       = Inl InvalidChunkError
   \<and> fst (ingest \<lparr> configured_rate = 16000, last_sequence = None, gate_threshold = 1 / 100,
                    chunks_processed = 0 \<rparr>
             \<lparr> pcm = [1 / 2, - 1 / 4], chunk_rate = 16000, capture_timestamp = 0,
               sequence_number = 1 \<rparr>)
       = Inr (Pipeline, 3 / 8,
              \<lparr> pcm = [1 / 2, - 1 / 4], chunk_rate = 16000, capture_timestamp = 0,
                sequence_number = 1 \<rparr>)
   \<and> chunks_processed
        (snd (ingest \<lparr> configured_rate = 16000, last_sequence = None, gate_threshold = 1 / 100,
                       chunks_processed = 0 \<rparr>
                \<lparr> pcm = [1 / 2, - 1 / 4], chunk_rate = 16000, capture_timestamp = 0,
                  sequence_number = 1 \<rparr>)) = 1
   \<and> reachable constructor
   \<and> snd (step constructor (Frame 44100 0 [[replicate 2048 (1 / 2)]] [[replicate 2048 0]]))
       = [processBuffer 0 (constructor\<lparr> buffer := replicate 2048 (1 / 2) \<rparr>)]
   \<and> length (chunk_audioBuffer (processBuffer 0 (constructor\<lparr> buffer := replicate 2048 (1 / 2) \<rparr>)))
       = size_slots (bufferSize constructor)"
proof -
  let ?sess = "\<lparr> configured_rate = 16000, last_sequence = None, gate_threshold = 1 / 100,
                 chunks_processed = 0 \<rparr>"
  let ?c0 = "\<lparr> pcm = [], chunk_rate = 16000, capture_timestamp = 0, sequence_number = 1 \<rparr>"
  let ?c1 = "\<lparr> pcm = [1 / 2, - 1 / 4], chunk_rate = 16000, capture_timestamp = 0,
               sequence_number = 1 \<rparr>"
  have i1: "fst (ingest ?sess ?c1) = Inr (Pipeline, 3 / 8, ?c1)"
    by (simp add: ingest_def out_of_order_def mean_absolute_amplitude_def Let_def)
  have st: "snd (step constructor (Frame 44100 0 [[replicate 2048 (1 / 2)]] [[replicate 2048 0]]))
       = [processBuffer 0 (constructor\<lparr> buffer := replicate 2048 (1 / 2) \<rparr>)]"
    using process_single_chunk [of "replicate 2048 (1 / 2)" 0 "replicate 2048 0"]
    by (cases "process 44100 0 constructor [[replicate 2048 (1 / 2)]] [[replicate 2048 0]]") simp
  note T0 = zero_length_chunk_rejected [of ?c0 ?sess Pipeline "3 / 8" ?c1 constructor
      "Frame 44100 0 [[replicate 2048 (1 / 2)]] [[replicate 2048 0]]"]
  note T1 = zero_length_chunk_rejected [of ?c1 ?sess Pipeline "3 / 8" ?c1 constructor
      "Frame 44100 0 [[replicate 2048 (1 / 2)]] [[replicate 2048 0]]"]
  have w1: "pcm ?c0 = []" by simp
  have w2: "fst (ingest ?sess ?c0) = Inl InvalidChunkError" using T0 w1 by blast
  have w4: "chunks_processed (snd (ingest ?sess ?c1)) = 1" using T1 i1 by simp
  have w6: "length (chunk_audioBuffer (processBuffer 0 (constructor\<lparr> buffer := replicate 2048 (1 / 2) \<rparr>)))
       = size_slots (bufferSize constructor)"
    using T1 reachable_init st by simp
  show ?thesis using w1 w2 i1 w4 reachable_init st w6 by blast
qed

section \<open>The voice clone request\<close>

lemma append_files_map:
  "append_files fs formData = formData @ map (\<lambda>f. (''audio_files'', File f)) fs"
  by (induction fs arbitrary: formData) simp_all

lemma submit_valid:
  assumes "trim (nameInput form) \<noteq> []" and "speakerSelect form \<noteq> []"
    and "samplesInput form \<noteq> []"
  shows "submitCreateVoiceForm form =
     Inr ([(''name'', Text (trim (nameInput form))), (''speaker_id'', Text (speakerSelect form))]
          @ (if trim (descriptionInput form) \<noteq> []
             then [(''description'', Text (trim (descriptionInput form)))] else [])
          @ (if actorSelect form \<noteq> [] then [(''actor_id'', Text (actorSelect form))] else [])
          @ map (\<lambda>f. (''audio_files'', File f)) (samplesInput form))"
  using assms by (simp add: submitCreateVoiceForm_def Let_def append_files_map)

lemma submit_invalid:
  assumes "trim (nameInput form) = [] \<or> speakerSelect form = [] \<or> samplesInput form = []"
  shows "\<exists>alert. submitCreateVoiceForm form = Inl alert"
  using assms by (auto simp: submitCreateVoiceForm_def)

text \<open>
  C7. Submitting the form makes the request exactly when the voice name is not empty after
  trimming, a speaker is selected and at least one audio sample file is chosen. The form
  data of the request has the trimmed name under \<open>name\<close>, the selected speaker under
  \<open>speaker_id\<close> and, under \<open>audio_files\<close>, every chosen file, in order. When one of the
  three conditions fails, an alert is shown and no request is made.
\<close>

theorem create_voice_request:
  "((\<exists>req. submitCreateVoiceForm form = Inr req) \<longleftrightarrow>
      trim (nameInput form) \<noteq> [] \<and> speakerSelect form \<noteq> [] \<and> samplesInput form \<noteq> [])
   \<and> (\<forall>req. submitCreateVoiceForm form = Inr req \<longrightarrow>
         map_of req ''name'' = Some (Text (trim (nameInput form)))
         \<and> map_of req ''speaker_id'' = Some (Text (speakerSelect form))
         \<and> map snd (filter (\<lambda>kv. fst kv = ''audio_files'') req) = map File (samplesInput form))
   \<and> (trim (nameInput form) = [] \<or> speakerSelect form = [] \<or> samplesInput form = [] \<longrightarrow>
         (\<exists>alert. submitCreateVoiceForm form = Inl alert))"
proof (intro conjI allI impI)
  show "(\<exists>req. submitCreateVoiceForm form = Inr req) \<longleftrightarrow>
      trim (nameInput form) \<noteq> [] \<and> speakerSelect form \<noteq> [] \<and> samplesInput form \<noteq> []"
  proof
    assume "\<exists>req. submitCreateVoiceForm form = Inr req"
    then show "trim (nameInput form) \<noteq> [] \<and> speakerSelect form \<noteq> [] \<and> samplesInput form \<noteq> []"
      using submit_invalid [of form] by auto
  next
    assume "trim (nameInput form) \<noteq> [] \<and> speakerSelect form \<noteq> [] \<and> samplesInput form \<noteq> []"
    then show "\<exists>req. submitCreateVoiceForm form = Inr req"
      using submit_valid [of form] by blast
  qed
next
  fix req assume r: "submitCreateVoiceForm form = Inr req"
  then have v: "trim (nameInput form) \<noteq> []" "speakerSelect form \<noteq> []" "samplesInput form \<noteq> []"
    using submit_invalid [of form] by auto
  have f: "filter (\<lambda>kv. fst kv = ''audio_files'')
             (map (\<lambda>f. (''audio_files'', File f)) (samplesInput form))
           = map (\<lambda>f. (''audio_files'', File f)) (samplesInput form)"
    by (simp add: filter_map o_def)
  from r submit_valid [OF v]
  have req: "req = [(''name'', Text (trim (nameInput form))), (''speaker_id'', Text (speakerSelect form))]
          @ (if trim (descriptionInput form) \<noteq> []
             then [(''description'', Text (trim (descriptionInput form)))] else [])
          @ (if actorSelect form \<noteq> [] then [(''actor_id'', Text (actorSelect form))] else [])
          @ map (\<lambda>f. (''audio_files'', File f)) (samplesInput form)"
    by simp
  show "map_of req ''name'' = Some (Text (trim (nameInput form)))"
    unfolding req by simp
  show "map_of req ''speaker_id'' = Some (Text (speakerSelect form))"
    unfolding req by simp
  show "map snd (filter (\<lambda>kv. fst kv = ''audio_files'') req) = map File (samplesInput form)"
    unfolding req by (simp add: f o_def)
next
  assume "trim (nameInput form) = [] \<or> speakerSelect form = [] \<or> samplesInput form = []"
  then show "\<exists>alert. submitCreateVoiceForm form = Inl alert" by (rule submit_invalid)
qed

text \<open>
  A form with the name " Ann ", the speaker "s1" and two files, and the same form with a
  name of white space only.
\<close>

theorem create_voice_request_witness:
  "trim [32, 65, 110, 110, 32] = [65, 110, 110]
   \<and> submitCreateVoiceForm
        \<lparr> nameInput = [32, 65, 110, 110, 32], descriptionInput = [], speakerSelect = [115, 49],
          actorSelect = [], samplesInput = [1 :: nat, 2] \<rparr>
       = Inr [(''name'', Text [65, 110, 110]), (''speaker_id'', Text [115, 49]),
              (''audio_files'', File 1), (''audio_files'', File 2)]
   \<and> map_of
        [(''name'', Text [65, 110, 110]), (''speaker_id'', Text [115, 49]),
         (''audio_files'', File (1 :: nat)), (''audio_files'', File 2)] ''name''
       = Some (Text [65, 110, 110])
   \<and> trim [32, 9] = []
   \<and> (\<exists>alert. submitCreateVoiceForm
        \<lparr> nameInput = [32, 9], descriptionInput = [], speakerSelect = [115, 49],
          actorSelect = [], samplesInput = [1 :: nat, 2] \<rparr> = Inl alert)"
proof -
  have t1: "trim [32, 65, 110, 110, 32] = [65, 110, 110]"
    and t2: "trim [32, 9] = []" and t3: "trim [] = []"
    by (simp_all add: trim_def isWhiteSpace_def)
  have s1: "submitCreateVoiceForm
        \<lparr> nameInput = [32, 65, 110, 110, 32], descriptionInput = [], speakerSelect = [115, 49],
          actorSelect = [], samplesInput = [1 :: nat, 2] \<rparr>
       = Inr [(''name'', Text [65, 110, 110]), (''speaker_id'', Text [115, 49]),
              (''audio_files'', File 1), (''audio_files'', File 2)]"
    by (simp add: submitCreateVoiceForm_def t1 t3)
  show ?thesis
    using create_voice_request [of "\<lparr> nameInput = [32, 65, 110, 110, 32], descriptionInput = [],
          speakerSelect = [115, 49], actorSelect = [], samplesInput = [1 :: nat, 2] \<rparr>"]
      create_voice_request [of "\<lparr> nameInput = [32, 9], descriptionInput = [],
          speakerSelect = [115, 49], actorSelect = [], samplesInput = [1 :: nat, 2] \<rparr>"]
      t1 t2 s1
    by simp
qed

section \<open>Voice detection\<close>

lemma band_loop_total:
  "band_loop b xs i (l, m, h) = (l', m', h') \<Longrightarrow> l' + m' + h' = l + m + h + sum_list xs"
proof (induction xs arbitrary: i l m h)
  case Nil
  then show ?case by simp
next
  case (Cons x xs)
  show ?case
  proof (cases "js_less (js_times (real i) b) 300")
    case True
    with Cons.prems have "band_loop b xs (i + 1) (l + x, m, h) = (l', m', h')"
      by (simp add: Let_def)
    from Cons.IH [OF this] show ?thesis by simp
  next
    case False
    show ?thesis
    proof (cases "js_less (js_times (real i) b) 3000")
      case True
      with False Cons.prems have "band_loop b xs (i + 1) (l, m + x, h) = (l', m', h')"
        by (simp add: Let_def)
      from Cons.IH [OF this] show ?thesis by simp
    next
      case f2: False
      with False Cons.prems have "band_loop b xs (i + 1) (l, m, h + x) = (l', m', h')"
        by (simp add: Let_def)
      from Cons.IH [OF this] show ?thesis by simp
    qed
  qed
qed

lemma totalEnergy_sum: "totalEnergy s fftData = sum_list fftData"
proof -
  obtain l m h where e: "band_energies s fftData = (l, m, h)"
    by (cases "band_energies s fftData")
  then have "band_loop (binSize_of s fftData) fftData 0 (0, 0, 0) = (l, m, h)"
    by (simp add: band_energies_def)
  from band_loop_total [OF this] e show ?thesis by (simp add: totalEnergy_def)
qed

lemma binSize_finite: "fftData \<noteq> [] \<Longrightarrow> \<exists>b. binSize_of s fftData = Num b"
  by (simp add: binSize_of_def js_div_def)

lemma midFreqRatio_finite:
  "totalEnergy s fftData \<noteq> 0 \<Longrightarrow>
   midFreqRatio s fftData = Num (fst (snd (band_energies s fftData)) / totalEnergy s fftData)"
  by (cases "band_energies s fftData") (simp add: midFreqRatio_def js_div_def)

text \<open>
  C10, as the code has it. \<open>detectVoice\<close> is total. For a spectrum that is not empty the
  bin width is a finite number, and the mid-frequency ratio is computed only when the total
  energy is not zero, so neither division has a zero divisor. The total energy is the sum
  of all bins; when it is 0 the result is false and the ratio is not computed. Voice is
  reported only when the ratio exceeds 0.3 and the total energy exceeds 0.01.
\<close>

theorem detectVoice_contract:
  "(fftData \<noteq> [] \<longrightarrow> (\<exists>b. binSize_of s fftData = Num b))
   \<and> totalEnergy s fftData = sum_list fftData
   \<and> (sum_list fftData = 0 \<longrightarrow> \<not> detectVoice s fftData)
   \<and> (totalEnergy s fftData \<noteq> 0 \<longrightarrow>
        midFreqRatio s fftData = Num (fst (snd (band_energies s fftData)) / totalEnergy s fftData))
   \<and> (detectVoice s fftData \<longrightarrow>
        totalEnergy s fftData \<noteq> 0
        \<and> fst (snd (band_energies s fftData)) / totalEnergy s fftData > 0.3
        \<and> totalEnergy s fftData > 0.01)"
proof (intro conjI impI)
  assume "fftData \<noteq> []"
  then show "\<exists>b. binSize_of s fftData = Num b" by (rule binSize_finite)
next
  show "totalEnergy s fftData = sum_list fftData" by (rule totalEnergy_sum)
next
  assume "sum_list fftData = 0"
  then show "\<not> detectVoice s fftData" by (simp add: detectVoice_def totalEnergy_sum)
next
  assume "totalEnergy s fftData \<noteq> 0"
  then show "midFreqRatio s fftData
               = Num (fst (snd (band_energies s fftData)) / totalEnergy s fftData)"
    by (rule midFreqRatio_finite)
next
  assume d: "detectVoice s fftData"
  then show nz: "totalEnergy s fftData \<noteq> 0" by (auto simp: detectVoice_def)
  from d show "totalEnergy s fftData > 0.01"
    by (auto simp: detectVoice_def split: if_splits)
  from d nz show "fst (snd (band_energies s fftData)) / totalEnergy s fftData > 0.3"
    using midFreqRatio_finite [OF nz] by (auto simp: detectVoice_def split: if_splits)
qed

text \<open>
  A spectrum of eight bins with all its energy in bin 1 (2756.25 Hz at 44100 Hz), and a
  spectrum of two bins without energy.
\<close>

lemma band_energies_example:
  "band_energies constructor [0, 1, 0, 0, 0, 0, 0, 0] = (0, 1, 0)"
  by (simp add: band_energies_def binSize_of_def js_div_def constructor_def Let_def)

theorem detectVoice_contract_witness:
  "[0, 1, 0, 0, 0, 0, 0, 0 :: real] \<noteq> []
   \<and> binSize_of constructor [0, 1, 0, 0, 0, 0, 0, 0] = Num (11025 / 4)
   \<and> detectVoice constructor [0, 1, 0, 0, 0, 0, 0, 0]
   \<and> totalEnergy constructor [0, 1, 0, 0, 0, 0, 0, 0] = 1
   \<and> midFreqRatio constructor [0, 1, 0, 0, 0, 0, 0, 0] = Num 1
   \<and> sum_list [0, 0 :: real] = 0
   \<and> \<not> detectVoice constructor [0, 0]"
proof -
  have t: "totalEnergy constructor [0, 1, 0, 0, 0, 0, 0, 0] = 1"
    by (simp add: totalEnergy_def band_energies_example)
  have m: "midFreqRatio constructor [0, 1, 0, 0, 0, 0, 0, 0] = Num 1"
    by (simp add: midFreqRatio_def band_energies_example t js_div_def)
  have d: "detectVoice constructor [0, 1, 0, 0, 0, 0, 0, 0]"
    by (simp add: detectVoice_def t m)
  have b: "binSize_of constructor [0, 1, 0, 0, 0, 0, 0, 0] = Num (11025 / 4)"
    by (simp add: binSize_of_def js_div_def constructor_def)
  show ?thesis
    using detectVoice_contract [of "[0, 1, 0, 0, 0, 0, 0, 0]" constructor]
      detectVoice_contract [of "[0, 0]" constructor] t m d b
    by simp
qed

text \<open>
  The claim as stated fails on the empty spectrum: the divisor of the bin width is
  \<open>fftData.length * 2 = 0\<close>, and the bin width is \<open>Infinity\<close>. It is not used, and the
  result is false.
\<close>

theorem detectVoice_division_counterexample:
  "real (length ([] :: real list) * 2) = 0
   \<and> binSize_of constructor [] = PosInfinity
   \<and> \<not> detectVoice constructor []"
  by (simp add: binSize_of_def js_div_def constructor_def detectVoice_def totalEnergy_sum)

section \<open>Speaker identification\<close>








lemma best_match_None: "best_match cfg e profiles = None \<longleftrightarrow> profiles = []"
  by (cases profiles) (simp_all add: best_match_def scores_def Let_def)
















end
